theory Spec2Isabelle
  imports Main "HOL-Library.Multiset"
begin

section \<open>Data model\<close>

text \<open>
  The module \<^verbatim>\<open>pytask/resolve_dependencies.py\<close> builds a networkx \<^verbatim>\<open>DiGraph\<close> from the
  tasks of a session, validates it and marks the tasks that need not run again.
  Names are Python strings; a fingerprint (the value of \<^verbatim>\<open>state()\<close>) is an opaque
  value compared by equality and is a string here.
\<close>

type_synonym fingerprint = string

text \<open>
  What a call of \<^verbatim>\<open>state()\<close> does: it returns a fingerprint, or raises
  \<^verbatim>\<open>NodeNotFoundError\<close>, or raises another subclass of \<^verbatim>\<open>Exception\<close> (a permission or
  I/O fault), given by its name.
\<close>

datatype state_outcome = Returns fingerprint | Raises_NodeNotFoundError | Raises_Other string

text \<open>
  The exceptions that leave the functions of the module. \<^verbatim>\<open>NodeNotFoundError\<close> is the one
  the root check raises, with the variable parts of its message: the node and the list of
  its successors. \<^verbatim>\<open>ResolvingDependenciesError\<close> carries the list of cycle edges when the
  cycle check raises it and nothing when the entry point raises it bare.
  \<^verbatim>\<open>OtherException\<close> is an exception of \<^verbatim>\<open>state()\<close> that nothing caught.
\<close>

datatype exn =
    NodeNotFoundError string "string list"
  | ResolvingDependenciesError "(string \<times> string) list option"
  | KeyError string
  | NetworkXUnfeasible
  | OtherException string

text \<open>\<^verbatim>\<open>Mark(name, args, kwargs)\<close>.\<close>

datatype mark = Mark string "string list" "(string \<times> string) list"

record DataNode =
  dn_name :: string
  dn_state :: state_outcome

record TaskNode =
  tn_name :: string
  depends_on :: "DataNode list"
  produces :: "DataNode list"
  markers :: "mark list"
  tn_state :: state_outcome

text \<open>
  The attribute dictionary of a graph node: the keys \<^verbatim>\<open>"task"\<close> and \<^verbatim>\<open>"node"\<close>, each
  present or absent.
\<close>

record node_dict =
  task :: "TaskNode option"
  node :: "DataNode option"

text \<open>
  A \<^verbatim>\<open>DiGraph\<close>: the nodes with their attribute dictionaries and the edges, both in
  insertion order (networkx keeps them in dictionaries).
\<close>

record DiGraph =
  nodes :: "(string \<times> node_dict) list"
  edges :: "(string \<times> string) list"

definition empty_dict :: node_dict where
  "empty_dict = \<lparr>task = None, node = None\<rparr>"

definition empty_graph :: DiGraph where
  "empty_graph = \<lparr>nodes = [], edges = []\<rparr>"

subsection \<open>The graph operations the module calls\<close>

text \<open>
  \<^verbatim>\<open>dag.add_node(name, **attr)\<close>: a new node is appended with the attributes; a node that
  is present keeps its place and its dictionary is updated with the attributes.
\<close>

fun update_attrs :: "(node_dict \<Rightarrow> node_dict) \<Rightarrow> string \<Rightarrow> (string \<times> node_dict) list
    \<Rightarrow> (string \<times> node_dict) list" where
  "update_attrs f k [] = [(k, f empty_dict)]"
| "update_attrs f k ((k', a) # ps) =
     (if k = k' then (k', f a) # ps else (k', a) # update_attrs f k ps)"

definition add_node :: "string \<Rightarrow> (node_dict \<Rightarrow> node_dict) \<Rightarrow> DiGraph \<Rightarrow> DiGraph" where
  "add_node n f g = g\<lparr>nodes := update_attrs f n (nodes g)\<rparr>"

text \<open>
  \<^verbatim>\<open>dag.add_edge(u, v)\<close>: both end points become nodes when they are not yet, then the
  edge is added unless it is there.
\<close>

definition add_edge :: "string \<Rightarrow> string \<Rightarrow> DiGraph \<Rightarrow> DiGraph" where
  "add_edge u v g =
     (let g' = add_node v id (add_node u id g)
      in g'\<lparr>edges := (if (u, v) \<in> set (edges g') then edges g' else edges g' @ [(u, v)])\<rparr>)"

text \<open>\<^verbatim>\<open>dag.nodes[n]\<close>, with \<open>None\<close> for the \<^verbatim>\<open>KeyError\<close> of a missing node.\<close>

definition node_attrs :: "DiGraph \<Rightarrow> string \<Rightarrow> node_dict option" where
  "node_attrs g n = map_of (nodes g) n"

definition predecessors :: "DiGraph \<Rightarrow> string \<Rightarrow> string list" where
  "predecessors g n = map fst (filter (\<lambda>e. snd e = n) (edges g))"

definition successors :: "DiGraph \<Rightarrow> string \<Rightarrow> string list" where
  "successors g n = map snd (filter (\<lambda>e. fst e = n) (edges g))"

section \<open>Building the graph\<close>

text \<open>
  \<^verbatim>\<open>pytask_resolve_dependencies_create_dag\<close>: for every task a node with the task as
  payload, for every dependency a node with the dependency as payload and an edge to the
  task, for every product a node and an edge from the task.
\<close>

fun add_dependencies :: "string \<Rightarrow> DataNode list \<Rightarrow> DiGraph \<Rightarrow> DiGraph" where
  "add_dependencies t [] g = g"
| "add_dependencies t (d # ds) g =
     add_dependencies t ds
       (add_edge (dn_name d) t (add_node (dn_name d) (\<lambda>a. a\<lparr>node := Some d\<rparr>) g))"

fun add_products :: "string \<Rightarrow> DataNode list \<Rightarrow> DiGraph \<Rightarrow> DiGraph" where
  "add_products t [] g = g"
| "add_products t (p # ps) g =
     add_products t ps
       (add_edge t (dn_name p) (add_node (dn_name p) (\<lambda>a. a\<lparr>node := Some p\<rparr>) g))"

definition add_task :: "TaskNode \<Rightarrow> DiGraph \<Rightarrow> DiGraph" where
  "add_task t g =
     add_products (tn_name t) (produces t)
       (add_dependencies (tn_name t) (depends_on t)
         (add_node (tn_name t) (\<lambda>a. a\<lparr>task := Some t\<rparr>) g))"

fun add_tasks :: "TaskNode list \<Rightarrow> DiGraph \<Rightarrow> DiGraph" where
  "add_tasks [] g = g"
| "add_tasks (t # ts) g = add_tasks ts (add_task t g)"

definition pytask_resolve_dependencies_create_dag :: "TaskNode list \<Rightarrow> DiGraph" where
  "pytask_resolve_dependencies_create_dag ts = add_tasks ts empty_graph"

section \<open>Has a node changed\<close>

text \<open>The persisted states: \<^verbatim>\<open>State[task_name, node_name]\<close>, \<open>None\<close> for
  \<^verbatim>\<open>orm.ObjectNotFound\<close>.\<close>

type_synonym state_db = "string \<times> string \<Rightarrow> fingerprint option"

text \<open>
  \<^verbatim>\<open>node_dict.get("task", None) or node_dict["node"]\<close>: the task payload when there is
  one, else the data payload, else a \<^verbatim>\<open>KeyError\<close>. The result is what the function reads
  of the payload: its name and what its \<^verbatim>\<open>state()\<close> does.
\<close>

definition payload :: "node_dict \<Rightarrow> (string \<times> state_outcome) option" where
  "payload a =
     (case task a of
        Some t \<Rightarrow> Some (tn_name t, tn_state t)
      | None \<Rightarrow> (case node a of
                  Some d \<Rightarrow> Some (dn_name d, dn_state d)
                | None \<Rightarrow> None))"

definition has_node_changed :: "state_db \<Rightarrow> string \<Rightarrow> node_dict \<Rightarrow> exn + bool" where
  "has_node_changed db task_name a =
     (case payload a of
        None \<Rightarrow> Inl (KeyError ''node'')
      | Some (name, outcome) \<Rightarrow>
          (case outcome of
             Raises_NodeNotFoundError \<Rightarrow> Inr True
           | Raises_Other x \<Rightarrow> Inl (OtherException x)
           | Returns state \<Rightarrow>
               (case db (task_name, name) of
                  None \<Rightarrow> Inr True
                | Some state_in_db \<Rightarrow> Inr (\<not> state = state_in_db))))"

section \<open>Paths in the graph\<close>

text \<open>
  The module relies on three facts about paths that networkx computes: which nodes can be
  reached from a node, an order of the nodes that follows the edges, and a cycle when
  there is one. They are all expressed here through one bounded search: \<open>find_path es k u v\<close>
  looks for a path of at most \<open>k + 1\<close> edges from \<open>u\<close> to \<open>v\<close>, trying the
  successors of \<open>u\<close> in insertion order.
\<close>

fun first_some :: "'a option list \<Rightarrow> 'a option" where
  "first_some [] = None"
| "first_some (x # xs) = (case x of Some y \<Rightarrow> Some y | None \<Rightarrow> first_some xs)"

fun find_path :: "(string \<times> string) list \<Rightarrow> nat \<Rightarrow> string \<Rightarrow> string
    \<Rightarrow> (string \<times> string) list option" where
  "find_path es 0 u v = (if (u, v) \<in> set es then Some [(u, v)] else None)"
| "find_path es (Suc k) u v =
     (if (u, v) \<in> set es then Some [(u, v)]
      else first_some
             (map (\<lambda>w. map_option ((#) (u, w)) (find_path es k w v))
                  (map snd (filter (\<lambda>e. fst e = u) es))))"

text \<open>A path of more edges than the graph has repeats an edge, so the bound is the number
  of edges.\<close>

definition reaches :: "(string \<times> string) list \<Rightarrow> string \<Rightarrow> string \<Rightarrow> bool" where
  "reaches es u v = (find_path es (length es) u v \<noteq> None)"

text \<open>
  What the theorems say about paths: \<open>is_walk es u p v\<close> holds when the edge list \<open>p\<close> is
  not empty, all its edges are edges of the graph, each one starts where the one before
  ends, the first starts at \<open>u\<close> and the last ends at \<open>v\<close>.
\<close>

fun is_walk :: "(string \<times> string) list \<Rightarrow> string \<Rightarrow> (string \<times> string) list \<Rightarrow> string \<Rightarrow> bool" where
  "is_walk es u [] v = False"
| "is_walk es u [e] v = (e \<in> set es \<and> fst e = u \<and> snd e = v)"
| "is_walk es u (e # e' # p) v = (e \<in> set es \<and> fst e = u \<and> is_walk es (snd e) (e' # p) v)"

definition closed_path :: "DiGraph \<Rightarrow> (string \<times> string) list \<Rightarrow> bool" where
  "closed_path g c = (c \<noteq> [] \<and> is_walk (edges g) (fst (hd c)) c (fst (hd c)))"

definition has_cycle :: "DiGraph \<Rightarrow> bool" where
  "has_cycle g = (\<exists>n. (n, n) \<in> (set (edges g))\<^sup>+)"

section \<open>The helpers of \<^verbatim>\<open>pytask.dag\<close>\<close>

definition has_task :: "DiGraph \<Rightarrow> string \<Rightarrow> bool" where
  "has_task g n = (case node_attrs g n of Some a \<Rightarrow> task a \<noteq> None | None \<Rightarrow> False)"

text \<open>
  Modelled from the spec: \<^verbatim>\<open>node_and_neigbors\<close> is defined in \<^verbatim>\<open>pytask/dag.py\<close>, which is
  not among the sources. The spec: the neighborhood of a task node is the task itself plus
  its direct predecessors and its direct successors.
\<close>

definition node_and_neigbors :: "DiGraph \<Rightarrow> string \<Rightarrow> string list" where
  "node_and_neigbors g n = n # predecessors g n @ successors g n"

text \<open>
  Modelled from the spec: \<^verbatim>\<open>task_and_descending_tasks\<close> is defined in \<^verbatim>\<open>pytask/dag.py\<close>,
  which is not among the sources. The spec: the task itself and every node with a task
  payload that can be reached from it by following edges forward.
\<close>

definition task_and_descending_tasks :: "string \<Rightarrow> DiGraph \<Rightarrow> string list" where
  "task_and_descending_tasks t g =
     t # filter (\<lambda>n. has_task g n \<and> reaches (edges g) t n) (map fst (nodes g))"

text \<open>
  Modelled from the spec: \<^verbatim>\<open>sort_tasks_topologically\<close> is defined in \<^verbatim>\<open>pytask/dag.py\<close>,
  which is not among the sources. The spec: the task nodes in a topological order of the
  graph, any valid linearization, ties broken by declaration order. The model takes, as long
  as nodes remain, the first remaining node that no remaining node reaches; when there is
  none the graph has a cycle, and networkx raises \<^verbatim>\<open>NetworkXUnfeasible\<close>. The theorems on
  the selection hold for every order that follows the edges, not only for this one.
\<close>

fun topological_sort :: "(string \<times> string) list \<Rightarrow> nat \<Rightarrow> string list \<Rightarrow> exn + string list" where
  "topological_sort es 0 ns = (if ns = [] then Inr [] else Inl NetworkXUnfeasible)"
| "topological_sort es (Suc k) ns =
     (case find (\<lambda>n. list_all (\<lambda>m. \<not> reaches es m n) ns) ns of
        None \<Rightarrow> if ns = [] then Inr [] else Inl NetworkXUnfeasible
      | Some n \<Rightarrow>
          (case topological_sort es k (removeAll n ns) of
             Inl e \<Rightarrow> Inl e
           | Inr r \<Rightarrow> Inr (n # r)))"

definition sort_tasks_topologically :: "DiGraph \<Rightarrow> exn + string list" where
  "sort_tasks_topologically g =
     (case topological_sort (edges g) (length (nodes g)) (map fst (nodes g)) of
        Inl e \<Rightarrow> Inl e
      | Inr ns \<Rightarrow> Inr (filter (has_task g) ns))"

text \<open>
  An order of task names follows the edges when no name occurs twice and no task can be
  reached from a task that comes after it.
\<close>

fun follows_edges :: "(string \<times> string) list \<Rightarrow> string list \<Rightarrow> bool" where
  "follows_edges es [] = True"
| "follows_edges es (t # ts) =
     (t \<notin> set ts \<and> list_all (\<lambda>d. (d, t) \<notin> (set es)\<^sup>+) ts \<and> follows_edges es ts)"

section \<open>Selecting the tasks to run\<close>

text \<open>\<^verbatim>\<open>_have_task_or_neighbors_changed\<close>: \<^verbatim>\<open>any\<close> stops at the first node that has
  changed, and at the first exception.\<close>

fun any_changed :: "state_db \<Rightarrow> string \<Rightarrow> DiGraph \<Rightarrow> string list \<Rightarrow> exn + bool" where
  "any_changed db task_name g [] = Inr False"
| "any_changed db task_name g (n # ns) =
     (case node_attrs g n of
        None \<Rightarrow> Inl (KeyError n)
      | Some a \<Rightarrow>
          (case has_node_changed db task_name a of
             Inl e \<Rightarrow> Inl e
           | Inr c \<Rightarrow> if c then Inr True else any_changed db task_name g ns))"

definition have_task_or_neighbors_changed :: "state_db \<Rightarrow> string \<Rightarrow> DiGraph \<Rightarrow> exn + bool" where
  "have_task_or_neighbors_changed db task_name g =
     any_changed db task_name g (node_and_neigbors g task_name)"

definition skip_unchanged :: mark where
  "skip_unchanged = Mark ''skip_unchanged'' [] []"

text \<open>\<^verbatim>\<open>dag.nodes[task_name]["task"].markers.append(m)\<close>: the task object is changed in
  place; here the graph that holds it is returned.\<close>

definition append_marker :: "string \<Rightarrow> mark \<Rightarrow> DiGraph \<Rightarrow> exn + DiGraph" where
  "append_marker n m g =
     (case node_attrs g n of
        None \<Rightarrow> Inl (KeyError n)
      | Some a \<Rightarrow>
          (case task a of
             None \<Rightarrow> Inl (KeyError ''task'')
           | Some t \<Rightarrow>
               Inr (g\<lparr>nodes :=
                 update_attrs (\<lambda>b. b\<lparr>task := Some (t\<lparr>markers := markers t @ [m]\<rparr>)\<rparr>) n (nodes g)\<rparr>)))"

text \<open>
  The loop of \<^verbatim>\<open>pytask_resolve_dependencies_select_execution_dag\<close> over the sorted task
  names. Its state is the list \<^verbatim>\<open>visited_nodes\<close> and the graph; the result is the state
  the loop ended in, with the exception that ended it when one did: markers that were
  appended before an exception stay appended.
\<close>

fun select_loop :: "state_db \<Rightarrow> string list \<Rightarrow> string list \<times> DiGraph
    \<Rightarrow> (string list \<times> DiGraph) \<times> exn option" where
  "select_loop db [] (visited_nodes, g) = ((visited_nodes, g), None)"
| "select_loop db (task_name # tasks) (visited_nodes, g) =
     (if task_name \<in> set visited_nodes then select_loop db tasks (visited_nodes, g)
      else
        (case have_task_or_neighbors_changed db task_name g of
           Inl e \<Rightarrow> ((visited_nodes, g), Some e)
         | Inr have_changed \<Rightarrow>
             if have_changed
             then select_loop db tasks
                    (visited_nodes @ task_and_descending_tasks task_name g, g)
             else
               (case append_marker task_name skip_unchanged g of
                  Inl e \<Rightarrow> ((visited_nodes, g), Some e)
                | Inr g' \<Rightarrow> select_loop db tasks (visited_nodes, g'))))"

definition pytask_resolve_dependencies_select_execution_dag ::
    "state_db \<Rightarrow> DiGraph \<Rightarrow> DiGraph \<times> exn option" where
  "pytask_resolve_dependencies_select_execution_dag db g =
     (case sort_tasks_topologically g of
        Inl e \<Rightarrow> (g, Some e)
      | Inr tasks \<Rightarrow>
          (case select_loop db tasks ([], g) of ((visited_nodes, g'), r) \<Rightarrow> (g', r)))"

text \<open>The markers of the task at a node; none when the node has no task payload.\<close>

definition markers_of :: "DiGraph \<Rightarrow> string \<Rightarrow> mark list" where
  "markers_of g n =
     (case node_attrs g n of
        None \<Rightarrow> []
      | Some a \<Rightarrow> (case task a of None \<Rightarrow> [] | Some t \<Rightarrow> markers t))"

section \<open>Validating the graph\<close>

text \<open>
  Modelled from the spec: \<^verbatim>\<open>nx.algorithms.cycles.find_cycle\<close> belongs to networkx, which is
  not among the sources. The spec: when a directed cycle exists the check gets the cycle
  as a sequence of (from, to) edge pairs, and nothing when the graph has none. The model
  returns, for the first node in insertion order that lies on a cycle, the path
  \<open>find_path\<close> finds from the node to itself.
\<close>

definition find_cycle :: "DiGraph \<Rightarrow> (string \<times> string) list option" where
  "find_cycle g =
     first_some (map (\<lambda>n. find_path (edges g) (length (edges g)) n n) (map fst (nodes g)))"

definition check_if_dag_has_cycles :: "DiGraph \<Rightarrow> exn + unit" where
  "check_if_dag_has_cycles g =
     (case find_cycle g of
        None \<Rightarrow> Inr ()
      | Some cycles \<Rightarrow> Inl (ResolvingDependenciesError (Some cycles)))"

fun check_roots :: "DiGraph \<Rightarrow> (string \<times> node_dict) list \<Rightarrow> exn + unit" where
  "check_roots g [] = Inr ()"
| "check_roots g ((n, a) # rest) =
     (let is_node = (node a \<noteq> None);
          is_without_parents = (length (predecessors g n) = 0)
      in if is_node \<and> is_without_parents
         then (case dn_state (the (node a)) of
                 Raises_NodeNotFoundError \<Rightarrow> Inl (NodeNotFoundError n (successors g n))
               | Raises_Other x \<Rightarrow> Inl (OtherException x)
               | Returns s \<Rightarrow> check_roots g rest)
         else check_roots g rest)"

definition check_if_root_nodes_are_available :: "DiGraph \<Rightarrow> exn + unit" where
  "check_if_root_nodes_are_available g = check_roots g (nodes g)"

definition pytask_resolve_dependencies_validate_dag :: "DiGraph \<Rightarrow> exn + unit" where
  "pytask_resolve_dependencies_validate_dag g =
     (case check_if_dag_has_cycles g of
        Inl e \<Rightarrow> Inl e
      | Inr u \<Rightarrow> check_if_root_nodes_are_available g)"

section \<open>The entry point\<close>

text \<open>
  The attributes of the session that \<^verbatim>\<open>pytask_resolve_dependencies\<close> writes: \<^verbatim>\<open>dag\<close> and
  \<^verbatim>\<open>resolving_dependencies_report\<close>, each \<open>None\<close> until it is assigned. The graph of the
  session is the object the selection changes in place, so the session holds the graph as
  the selection left it. \<^verbatim>\<open>session.tasks\<close> is read only and is the argument
  \<open>session_tasks\<close>; the task objects are shared with the graph, and the graph is where the
  model keeps their markers. The hook calls are the calls of the implementations above;
  the logging hook prints and changes nothing. The result is the session and what the
  function returns or raises.
\<close>

record session =
  session_dag :: "DiGraph option"
  resolving_dependencies_report :: "exn option"

definition pytask_resolve_dependencies ::
    "state_db \<Rightarrow> TaskNode list \<Rightarrow> session \<Rightarrow> session \<times> (exn + bool)" where
  "pytask_resolve_dependencies db session_tasks s =
     (let g = pytask_resolve_dependencies_create_dag session_tasks;
          s1 = s\<lparr>session_dag := Some g\<rparr>
      in case pytask_resolve_dependencies_validate_dag g of
           Inl e \<Rightarrow>
             (s1\<lparr>resolving_dependencies_report := Some e\<rparr>, Inl (ResolvingDependenciesError None))
         | Inr u \<Rightarrow>
             (case pytask_resolve_dependencies_select_execution_dag db g of
                (g', Some e) \<Rightarrow>
                  (s1\<lparr>session_dag := Some g', resolving_dependencies_report := Some e\<rparr>,
                   Inl (ResolvingDependenciesError None))
              | (g', None) \<Rightarrow> (s1\<lparr>session_dag := Some g'\<rparr>, Inr True)))"

section \<open>Notions used in the proofs and the examples\<close>

text \<open>Two graphs have the same shape when they differ at most in the markers of tasks: the
  same edges, the same node names, and at every node the same kind of payload with the
  same name and state.\<close>

definition same_shape :: "DiGraph \<Rightarrow> DiGraph \<Rightarrow> bool" where
  "same_shape g g' =
     (edges g' = edges g \<and> map fst (nodes g') = map fst (nodes g) \<and>
      (\<forall>k. map_option payload (node_attrs g' k) = map_option payload (node_attrs g k)) \<and>
      (\<forall>k. has_task g' k = has_task g k))"

text \<open>A list of visited names is closed when it holds every task that can be reached from
  one of its members.\<close>

definition closed_under_tasks :: "DiGraph \<Rightarrow> string list \<Rightarrow> bool" where
  "closed_under_tasks g vis =
     (\<forall>v d. v \<in> set vis \<and> has_task g d \<and> (v, d) \<in> (set (edges g))\<^sup>+ \<longrightarrow> d \<in> set vis)"

text \<open>The example of the spec: task \<open>A\<close> produces \<open>file1\<close>, task \<open>B\<close> depends on it.\<close>

definition file1 :: DataNode where
  "file1 = \<lparr>dn_name = ''file1'', dn_state = Returns ''h1''\<rparr>"

definition task_A :: TaskNode where
  "task_A = \<lparr>tn_name = ''A'', depends_on = [], produces = [file1], markers = [],
              tn_state = Returns ''hA''\<rparr>"

definition task_B :: TaskNode where
  "task_B = \<lparr>tn_name = ''B'', depends_on = [file1], produces = [], markers = [],
              tn_state = Returns ''hB''\<rparr>"

definition graph_AB :: DiGraph where
  "graph_AB = pytask_resolve_dependencies_create_dag [task_A, task_B]"

text \<open>The states persisted after both tasks ran, and those persisted after only \<open>B\<close> ran.\<close>

definition db_AB :: state_db where
  "db_AB = (\<lambda>k. None)((''A'', ''A'') \<mapsto> ''hA'', (''A'', ''file1'') \<mapsto> ''h1'',
                        (''B'', ''B'') \<mapsto> ''hB'', (''B'', ''file1'') \<mapsto> ''h1'')"

definition db_B :: state_db where
  "db_B = (\<lambda>k. None)((''B'', ''B'') \<mapsto> ''hB'', (''B'', ''file1'') \<mapsto> ''h1'')"

text \<open>A product whose state cannot be read, and a task that produces it.\<close>

definition locked :: DataNode where
  "locked = \<lparr>dn_name = ''locked'', dn_state = Raises_Other ''PermissionError''\<rparr>"

definition task_E :: TaskNode where
  "task_E = \<lparr>tn_name = ''E'', depends_on = [], produces = [locked], markers = [],
              tn_state = Returns ''hE''\<rparr>"

definition db_E :: state_db where
  "db_E = (\<lambda>k. None)((''E'', ''E'') \<mapsto> ''hE'')"

definition graph_E :: DiGraph where
  "graph_E = pytask_resolve_dependencies_create_dag [task_E]"

text \<open>Every edge runs between nodes of the graph, as in every \<^verbatim>\<open>DiGraph\<close>: \<^verbatim>\<open>add_edge\<close>
  makes its end points nodes.\<close>

definition edges_between_nodes :: "DiGraph \<Rightarrow> bool" where
  "edges_between_nodes g =
     list_all (\<lambda>e. fst e \<in> set (map fst (nodes g)) \<and> snd e \<in> set (map fst (nodes g))) (edges g)"

text \<open>What the root check asks of an entry of the node list: the outcome of \<^verbatim>\<open>state()\<close>
  when the node has a data payload and no predecessor, nothing otherwise. The entry passes
  when nothing is asked or the state is returned.\<close>

definition root_state :: "DiGraph \<Rightarrow> string \<times> node_dict \<Rightarrow> state_outcome option" where
  "root_state g p =
     (case node (snd p) of
        None \<Rightarrow> None
      | Some d \<Rightarrow> if predecessors g (fst p) = [] then Some (dn_state d) else None)"

definition root_passes :: "DiGraph \<Rightarrow> string \<times> node_dict \<Rightarrow> bool" where
  "root_passes g p = (root_state g p = None \<or> (\<exists>s. root_state g p = Some (Returns s)))"

text \<open>The node names of a graph, and the names and edges a task declares.\<close>

definition node_names :: "DiGraph \<Rightarrow> string set" where
  "node_names g = set (map fst (nodes g))"

definition declared_names :: "TaskNode \<Rightarrow> string set" where
  "declared_names t =
     {tn_name t} \<union> dn_name ` set (depends_on t) \<union> dn_name ` set (produces t)"

definition declared_edges :: "TaskNode \<Rightarrow> (string \<times> string) set" where
  "declared_edges t =
     (\<lambda>d. (dn_name d, tn_name t)) ` set (depends_on t) \<union>
     (\<lambda>p. (tn_name t, dn_name p)) ` set (produces t)"

definition data_names :: "TaskNode \<Rightarrow> string set" where
  "data_names t = dn_name ` set (depends_on t) \<union> dn_name ` set (produces t)"

definition same_nodes_and_edges :: "DiGraph \<Rightarrow> DiGraph \<Rightarrow> bool" where
  "same_nodes_and_edges g g' = (node_names g = node_names g' \<and> set (edges g) = set (edges g'))"

text \<open>A task and the same task with its dependencies and its products listed in another
  order.\<close>

definition reordered_lists :: "TaskNode \<Rightarrow> TaskNode \<Rightarrow> bool" where
  "reordered_lists t t' =
     (tn_name t' = tn_name t \<and> mset (depends_on t') = mset (depends_on t) \<and>
      mset (produces t') = mset (produces t))"

text \<open>The payloads in a graph under construction: every node has one, a task payload only
  under a name in \<open>T\<close>, a data payload only under a name in \<open>D\<close>.\<close>

definition payload_inv :: "string set \<Rightarrow> string set \<Rightarrow> DiGraph \<Rightarrow> bool" where
  "payload_inv T D g =
     (\<forall>n a. (n, a) \<in> set (nodes g) \<longrightarrow>
        (task a \<noteq> None \<or> node a \<noteq> None) \<and> (task a \<noteq> None \<longrightarrow> n \<in> T) \<and>
        (node a \<noteq> None \<longrightarrow> n \<in> D))"

text \<open>A task whose product is also its dependency, next to an input that does not exist.\<close>

definition missing :: DataNode where
  "missing = \<lparr>dn_name = ''missing'', dn_state = Raises_NodeNotFoundError\<rparr>"

definition out :: DataNode where
  "out = \<lparr>dn_name = ''out'', dn_state = Returns ''h2''\<rparr>"

definition task_T :: TaskNode where
  "task_T = \<lparr>tn_name = ''T'', depends_on = [missing, out], produces = [out], markers = [],
              tn_state = Returns ''hT''\<rparr>"

definition graph_T :: DiGraph where
  "graph_T = pytask_resolve_dependencies_create_dag [task_T]"

text \<open>A task that depends on a file that no task produces and that does not exist.\<close>

definition task_M :: TaskNode where
  "task_M = \<lparr>tn_name = ''M'', depends_on = [missing], produces = [], markers = [],
              tn_state = Returns ''hM''\<rparr>"

definition graph_M :: DiGraph where
  "graph_M = pytask_resolve_dependencies_create_dag [task_M]"

text \<open>A task with two inputs: the state of the first cannot be read, the second does not
  exist.\<close>

definition task_L :: TaskNode where
  "task_L = \<lparr>tn_name = ''L'', depends_on = [locked, missing], produces = [], markers = [],
              tn_state = Returns ''hL''\<rparr>"

definition graph_L :: DiGraph where
  "graph_L = pytask_resolve_dependencies_create_dag [task_L]"

text \<open>A task and a dependency with the same name.\<close>

definition data_a :: DataNode where
  "data_a = \<lparr>dn_name = ''a'', dn_state = Returns ''h1''\<rparr>"

definition task_a :: TaskNode where
  "task_a = \<lparr>tn_name = ''a'', depends_on = [data_a], produces = [], markers = [],
              tn_state = Returns ''h2''\<rparr>"

text \<open>A session before the resolution. The task \<open>F\<close> depends on \<open>file1\<close>, which \<open>A\<close>
  produces, and produces \<open>locked\<close>; the states are those persisted after both ran.\<close>

definition new_session :: session where
  "new_session = \<lparr>session_dag = None, resolving_dependencies_report = None\<rparr>"

definition task_F :: TaskNode where
  "task_F = \<lparr>tn_name = ''F'', depends_on = [file1], produces = [locked], markers = [],
              tn_state = Returns ''hF''\<rparr>"

definition graph_AF :: DiGraph where
  "graph_AF = pytask_resolve_dependencies_create_dag [task_A, task_F]"

definition db_AF :: state_db where
  "db_AF = (\<lambda>k. None)((''A'', ''A'') \<mapsto> ''hA'', (''A'', ''file1'') \<mapsto> ''h1'',
                        (''F'', ''F'') \<mapsto> ''hF'', (''F'', ''file1'') \<mapsto> ''h1'')"




section \<open>Paths: the search finds exactly the paths\<close>

lemma first_some_Some:
  "first_some xs = Some y \<Longrightarrow> Some y \<in> set xs"
  by (induction xs) (auto split: option.splits)

lemma first_some_None:
  "first_some xs = None \<longleftrightarrow> (\<forall>x \<in> set xs. x = None)"
  by (induction xs) (auto split: option.splits)

lemma is_walk_Cons:
  "is_walk es u (e # p) v \<longleftrightarrow>
     e \<in> set es \<and> fst e = u \<and> (if p = [] then snd e = v else is_walk es (snd e) p v)"
  by (cases p) auto

lemma find_path_walk:
  "find_path es k u v = Some p \<Longrightarrow> is_walk es u p v"
proof (induction k arbitrary: u p)
  case 0
  then show ?case by (auto split: if_splits)
next
  case (Suc k)
  show ?case
  proof (cases "(u, v) \<in> set es")
    case True
    with Suc.prems show ?thesis by auto
  next
    case False
    with Suc.prems have "Some p \<in> set (map (\<lambda>w. map_option ((#) (u, w)) (find_path es k w v))
                  (map snd (filter (\<lambda>e. fst e = u) es)))"
      by (auto dest!: first_some_Some)
    then obtain w q where w: "(u, w) \<in> set es" and q: "find_path es k w v = Some q" and p: "p = (u, w) # q"
      by (auto simp: map_option_case split: option.splits)
    from Suc.IH[OF q] have wq: "is_walk es w q v" .
    then have "q \<noteq> []" by (cases q) auto
    with wq w p show ?thesis by (simp add: is_walk_Cons)
  qed
qed

lemma is_walk_trancl:
  "is_walk es u p v \<Longrightarrow> (u, v) \<in> (set es)\<^sup>+"
proof (induction p arbitrary: u)
  case Nil
  then show ?case by simp
next
  case (Cons e p)
  show ?case
  proof (cases "p = []")
    case True
    with Cons.prems have "(u, v) \<in> set es" by (cases e) auto
    then show ?thesis by blast
  next
    case False
    with Cons.prems have e: "(u, snd e) \<in> set es" and w: "is_walk es (snd e) p v"
      by (cases e; simp add: is_walk_Cons)+
    from Cons.IH[OF w] e show ?thesis by (meson trancl_into_trancl2)
  qed
qed

lemma find_path_complete:
  "(u, v) \<in> (set es) ^^ (Suc i) \<Longrightarrow> i \<le> k \<Longrightarrow> find_path es k u v \<noteq> None"
proof (induction k arbitrary: u i)
  case 0
  then show ?case by auto
next
  case (Suc k)
  show ?case
  proof (cases "(u, v) \<in> set es")
    case True
    then show ?thesis by simp
  next
    case False
    with Suc.prems have "i \<noteq> 0" by (cases i) auto
    then obtain j where j: "i = Suc j" by (cases i) auto
    with Suc.prems obtain w where w: "(u, w) \<in> set es" and r: "(w, v) \<in> (set es) ^^ (Suc j)"
      by (meson relpow_Suc_D2)
    from j Suc.prems have "j \<le> k" by simp
    from Suc.IH[OF r this] obtain q where q: "find_path es k w v = Some q" by auto
    from w have "w \<in> set (map snd (filter (\<lambda>e. fst e = u) es))" by force
    with q have "Some ((u, w) # q) \<in> set (map (\<lambda>w. map_option ((#) (u, w)) (find_path es k w v))
                  (map snd (filter (\<lambda>e. fst e = u) es)))"
      by force
    then have "first_some (map (\<lambda>w. map_option ((#) (u, w)) (find_path es k w v))
                  (map snd (filter (\<lambda>e. fst e = u) es))) \<noteq> None"
      unfolding first_some_None by blast
    with False show ?thesis by simp
  qed
qed

lemma trancl_bounded:
  assumes "(u, v) \<in> (set es)\<^sup>+"
  shows "\<exists>i. i \<le> length es \<and> (u, v) \<in> (set es) ^^ (Suc i)"
proof -
  have "(set es)\<^sup>+ = ntrancl (card (set es) - 1) (set es)"
    by (rule finite_trancl_ntranl) simp
  with assms obtain i where i: "0 < i" "i \<le> Suc (card (set es) - 1)" "(u, v) \<in> (set es) ^^ i"
    unfolding ntrancl_def by auto
  then obtain j where j: "i = Suc j" by (cases i) auto
  have "card (set es) \<le> length es" by (rule card_length)
  with i j have "j \<le> length es" by simp
  with i j show ?thesis by blast
qed

lemma reaches_iff: "reaches es u v \<longleftrightarrow> (u, v) \<in> (set es)\<^sup>+"
proof
  assume "reaches es u v"
  then obtain p where "find_path es (length es) u v = Some p"
    by (auto simp: reaches_def)
  then show "(u, v) \<in> (set es)\<^sup>+"
    by (blast dest: find_path_walk is_walk_trancl)
next
  assume "(u, v) \<in> (set es)\<^sup>+"
  then obtain i where "i \<le> length es" "(u, v) \<in> (set es) ^^ (Suc i)"
    by (blast dest: trancl_bounded)
  then show "reaches es u v"
    unfolding reaches_def by (rule find_path_complete[rotated])
qed

section \<open>The selection loop keeps the shape of the graph\<close>

lemma same_shape_refl: "same_shape g g"
  by (simp add: same_shape_def)

lemma same_shape_trans: "same_shape g g' \<Longrightarrow> same_shape g' g'' \<Longrightarrow> same_shape g g''"
  by (simp add: same_shape_def)

lemma map_of_update_attrs:
  "map_of (update_attrs f k ps) k' =
     (if k' = k then Some (f (case map_of ps k of Some a \<Rightarrow> a | None \<Rightarrow> empty_dict))
      else map_of ps k')"
  by (induction ps) auto

lemma keys_update_attrs:
  "map fst (update_attrs f k ps) =
     (if k \<in> fst ` set ps then map fst ps else map fst ps @ [k])"
  by (induction ps) force+

lemma append_marker_attrs:
  assumes "append_marker n m g = Inr g'"
  shows "\<exists>a t. node_attrs g n = Some a \<and> task a = Some t \<and>
           edges g' = edges g \<and> map fst (nodes g') = map fst (nodes g) \<and>
           (\<forall>k. node_attrs g' k =
              (if k = n then Some (a\<lparr>task := Some (t\<lparr>markers := markers t @ [m]\<rparr>)\<rparr>)
               else node_attrs g k))"
proof -
  from assms obtain a t where a: "node_attrs g n = Some a" and t: "task a = Some t"
    and g': "g' = g\<lparr>nodes :=
                 update_attrs (\<lambda>b. b\<lparr>task := Some (t\<lparr>markers := markers t @ [m]\<rparr>)\<rparr>) n (nodes g)\<rparr>"
    by (auto simp: append_marker_def split: option.splits)
  from a have "n \<in> fst ` set (nodes g)"
    by (auto simp: node_attrs_def dest: map_of_SomeD intro: rev_image_eqI)
  with a t g' show ?thesis
    by (auto simp: node_attrs_def map_of_update_attrs keys_update_attrs)
qed

lemma append_marker_same_shape:
  assumes "append_marker n m g = Inr g'"
  shows "same_shape g g'"
proof -
  from append_marker_attrs[OF assms] obtain a t where a: "node_attrs g n = Some a"
    and t: "task a = Some t" and e: "edges g' = edges g"
    and k: "map fst (nodes g') = map fst (nodes g)"
    and at: "\<And>k. node_attrs g' k =
              (if k = n then Some (a\<lparr>task := Some (t\<lparr>markers := markers t @ [m]\<rparr>)\<rparr>)
               else node_attrs g k)"
    by blast
  have "map_option payload (node_attrs g' k) = map_option payload (node_attrs g k)" for k
    using a t by (cases "k = n") (simp_all add: at payload_def)
  moreover have "has_task g' k = has_task g k" for k
    using a t by (cases "k = n") (simp_all add: at has_task_def)
  ultimately show ?thesis using e k by (simp add: same_shape_def)
qed

lemma append_marker_markers:
  assumes "append_marker n m g = Inr g'"
  shows "markers_of g' k = (if k = n then markers_of g n @ [m] else markers_of g k)"
  using append_marker_attrs[OF assms]
  by (auto simp: markers_of_def)


lemma has_node_changed_payload:
  "payload a = payload b \<Longrightarrow> has_node_changed db t a = has_node_changed db t b"
  by (simp add: has_node_changed_def)

lemma any_changed_same_shape:
  assumes "same_shape g g'"
  shows "any_changed db t g' ns = any_changed db t g ns"
proof (induction ns)
  case Nil
  show ?case by simp
next
  case (Cons n ns)
  from assms have eq: "map_option payload (node_attrs g' n) = map_option payload (node_attrs g n)"
    by (simp add: same_shape_def)
  show ?case
  proof (cases "node_attrs g n")
    case None
    with eq have "node_attrs g' n = None" by simp
    with None show ?thesis by simp
  next
    case (Some a)
    with eq obtain b where b: "node_attrs g' n = Some b" and "payload b = payload a"
      by auto
    then have "has_node_changed db t b = has_node_changed db t a"
      by (rule_tac has_node_changed_payload)
    with Some b Cons.IH show ?thesis by (simp split: sum.splits)
  qed
qed

lemma have_changed_same_shape:
  assumes "same_shape g g'"
  shows "have_task_or_neighbors_changed db t g' = have_task_or_neighbors_changed db t g"
proof -
  from assms have "edges g' = edges g" by (simp add: same_shape_def)
  then have "node_and_neigbors g' t = node_and_neigbors g t"
    by (simp add: node_and_neigbors_def predecessors_def successors_def)
  then show ?thesis
    by (simp add: have_task_or_neighbors_changed_def any_changed_same_shape[OF assms])
qed

lemma descending_same_shape:
  assumes "same_shape g g'"
  shows "task_and_descending_tasks t g' = task_and_descending_tasks t g"
  using assms by (simp add: same_shape_def task_and_descending_tasks_def)

lemma select_loop_append:
  "select_loop db (xs @ ys) s =
     (case select_loop db xs s of
        (s', None) \<Rightarrow> select_loop db ys s'
      | (s', Some e) \<Rightarrow> (s', Some e))"
proof (induction xs arbitrary: s)
  case Nil
  show ?case by (cases s) simp
next
  case (Cons x xs)
  obtain vis g where s: "s = (vis, g)" by (cases s)
  show ?case unfolding s
    by (simp add: Cons.IH split: sum.splits)
qed

lemma select_loop_invariant:
  "select_loop db ts (vis, g) = ((vis', g'), r) \<Longrightarrow>
     same_shape g g' \<and> set vis \<subseteq> set vis' \<and>
     (\<forall>d. d \<notin> set ts \<or> d \<in> set vis \<longrightarrow> markers_of g' d = markers_of g d)"
proof (induction ts arbitrary: vis g)
  case Nil
  then show ?case by (simp add: same_shape_refl)
next
  case (Cons t ts)
  show ?case
  proof (cases "t \<in> set vis")
    case True
    with Cons.prems have "select_loop db ts (vis, g) = ((vis', g'), r)" by simp
    from Cons.IH[OF this] show ?thesis by auto
  next
    case False
    note notvis = this
    show ?thesis
    proof (cases "have_task_or_neighbors_changed db t g")
      case (Inl e)
      with notvis Cons.prems show ?thesis by (simp add: same_shape_refl)
    next
      case (Inr c)
      show ?thesis
      proof (cases c)
        case True
        with Inr notvis Cons.prems
        have "select_loop db ts (vis @ task_and_descending_tasks t g, g) = ((vis', g'), r)"
          by simp
        from Cons.IH[OF this] show ?thesis by auto
      next
        case False
        show ?thesis
        proof (cases "append_marker t skip_unchanged g")
          case (Inl e)
          with False Inr notvis Cons.prems show ?thesis by (simp add: same_shape_refl)
        next
          case (Inr g2)
          with False \<open>have_task_or_neighbors_changed db t g = Inr c\<close> notvis Cons.prems
          have "select_loop db ts (vis, g2) = ((vis', g'), r)" by simp
          from Cons.IH[OF this]
          have 1: "same_shape g2 g'" and 2: "set vis \<subseteq> set vis'"
            and 3: "\<forall>d. d \<notin> set ts \<or> d \<in> set vis \<longrightarrow> markers_of g' d = markers_of g2 d"
            by auto
          from append_marker_same_shape[OF Inr] 1 have "same_shape g g'"
            by (rule same_shape_trans)
          moreover have "\<forall>d. d \<notin> set (t # ts) \<or> d \<in> set vis \<longrightarrow> markers_of g' d = markers_of g d"
            using 3 notvis append_marker_markers[OF Inr] by auto
          ultimately show ?thesis using 2 by simp
        qed
      qed
    qed
  qed
qed

lemma follows_edges_append:
  "follows_edges es (pre @ t # post) \<Longrightarrow>
     t \<notin> set pre \<and> t \<notin> set post \<and> (\<forall>p \<in> set pre. (t, p) \<notin> (set es)\<^sup>+)"
  by (induction pre) (auto simp: list_all_iff)

lemma have_changed_empty_db:
  "have_task_or_neighbors_changed (\<lambda>k. None) t g \<noteq> Inr False"
  by (auto simp: have_task_or_neighbors_changed_def node_and_neigbors_def has_node_changed_def
      split: option.splits sum.splits state_outcome.splits)

lemma select_loop_empty_db:
  "select_loop (\<lambda>k. None) ts (vis, g) = ((vis', g'), r) \<Longrightarrow> g' = g"
proof (induction ts arbitrary: vis)
  case Nil
  then show ?case by simp
next
  case (Cons t ts)
  show ?case
  proof (cases "t \<in> set vis")
    case True
    with Cons show ?thesis by simp
  next
    case False
    show ?thesis
    proof (cases "have_task_or_neighbors_changed (\<lambda>k. None) t g")
      case (Inl e)
      with False Cons.prems show ?thesis by simp
    next
      case (Inr c)
      with have_changed_empty_db[of t g] have c by (cases c) auto
      with Inr False Cons show ?thesis by simp
    qed
  qed
qed

lemma has_task_key: "has_task g d \<Longrightarrow> d \<in> set (map fst (nodes g))"
  by (auto simp: has_task_def node_attrs_def split: option.splits dest!: map_of_SomeD
      intro: rev_image_eqI)

lemma descending_tasks_iff:
  "d \<in> set (task_and_descending_tasks t g) \<longleftrightarrow>
     d = t \<or> (has_task g d \<and> (t, d) \<in> (set (edges g))\<^sup>+)"
  using has_task_key[of g d]
  by (auto simp: task_and_descending_tasks_def reaches_iff)

lemma closed_under_tasks_append:
  assumes "closed_under_tasks g vis"
  shows "closed_under_tasks g (vis @ task_and_descending_tasks t g)"
  using assms unfolding closed_under_tasks_def
  by (auto simp: descending_tasks_iff intro: trancl_trans)

lemma closed_same_shape:
  "same_shape g g' \<Longrightarrow> closed_under_tasks g' vis = closed_under_tasks g vis"
  by (simp add: closed_under_tasks_def same_shape_def)

lemma select_loop_closed:
  "select_loop db ts (vis, g) = ((vis', g'), r) \<Longrightarrow> closed_under_tasks g vis \<Longrightarrow>
     closed_under_tasks g' vis'"
proof (induction ts arbitrary: vis g)
  case Nil
  then show ?case by simp
next
  case (Cons t ts)
  show ?case
  proof (cases "t \<in> set vis")
    case True
    with Cons show ?thesis by simp
  next
    case False
    note notvis = this
    show ?thesis
    proof (cases "have_task_or_neighbors_changed db t g")
      case (Inl e)
      with notvis Cons.prems show ?thesis by simp
    next
      case (Inr c)
      note hc = this
      show ?thesis
      proof (cases c)
        case True
        with hc notvis Cons.prems
        have "select_loop db ts (vis @ task_and_descending_tasks t g, g) = ((vis', g'), r)"
          by simp
        from Cons.IH[OF this closed_under_tasks_append[OF Cons.prems(2)]] show ?thesis .
      next
        case False
        show ?thesis
        proof (cases "append_marker t skip_unchanged g")
          case (Inl e)
          with False hc notvis Cons.prems show ?thesis by simp
        next
          case (Inr g2)
          with False hc notvis Cons.prems
          have l: "select_loop db ts (vis, g2) = ((vis', g'), r)" by simp
          from append_marker_same_shape[OF Inr] Cons.prems(2)
          have "closed_under_tasks g2 vis" by (simp add: closed_same_shape)
          from Cons.IH[OF l this] show ?thesis .
        qed
      qed
    qed
  qed
qed

lemma markers_of_no_task: "\<not> has_task g d \<Longrightarrow> markers_of g d = []"
  by (auto simp: has_task_def markers_of_def split: option.splits)


section \<open>The modelled order follows the edges\<close>

lemma topological_sort_follows_edges:
  "topological_sort es k ns = Inr r \<Longrightarrow> follows_edges es r \<and> set r \<subseteq> set ns"
proof (induction k arbitrary: ns r)
  case 0
  then show ?case by (auto split: if_splits)
next
  case (Suc k)
  show ?case
  proof (cases "find (\<lambda>n. list_all (\<lambda>m. \<not> reaches es m n) ns) ns")
    case None
    with Suc.prems show ?thesis by (auto split: if_splits)
  next
    case (Some n)
    with Suc.prems obtain r' where r': "topological_sort es k (removeAll n ns) = Inr r'"
      and r: "r = n # r'"
      by (auto split: sum.splits)
    from Some have n: "n \<in> set ns" and min: "\<forall>m \<in> set ns. (m, n) \<notin> (set es)\<^sup>+"
      by (auto simp: find_Some_iff list_all_iff reaches_iff)
    from Suc.IH[OF r'] have fe: "follows_edges es r'" and sub: "set r' \<subseteq> set ns - {n}"
      by auto
    from sub min have "n \<notin> set r'" and "list_all (\<lambda>d. (d, n) \<notin> (set es)\<^sup>+) r'"
      by (auto simp: list_all_iff)
    with fe r n sub show ?thesis by auto
  qed
qed

lemma follows_edges_filter: "follows_edges es ts \<Longrightarrow> follows_edges es (filter P ts)"
  by (induction ts) (auto simp: list_all_iff)

lemma sort_tasks_follows_edges:
  "sort_tasks_topologically g = Inr ts \<Longrightarrow> follows_edges (edges g) ts"
  by (auto simp: sort_tasks_topologically_def split: sum.splits
      dest!: topological_sort_follows_edges intro: follows_edges_filter)






lemma follows_edges_distinct: "follows_edges es ts \<Longrightarrow> distinct ts"
  by (induction ts) auto


section \<open>The selection as a whole\<close>

lemma select_same_shape:
  "same_shape g (fst (pytask_resolve_dependencies_select_execution_dag db g))"
proof (cases "sort_tasks_topologically g")
  case (Inl e)
  then show ?thesis
    by (simp add: pytask_resolve_dependencies_select_execution_dag_def same_shape_refl)
next
  case (Inr ts)
  obtain vis g' r where l: "select_loop db ts ([], g) = ((vis, g'), r)" by (metis surj_pair)
  from select_loop_invariant[OF l] l Inr show ?thesis
    by (simp add: pytask_resolve_dependencies_select_execution_dag_def)
qed

lemma select_decompose:
  assumes sort: "sort_tasks_topologically g = Inr (pre @ t # post)"
    and pre: "select_loop db pre ([], g) = ((vis, g1), None)"
  shows "pytask_resolve_dependencies_select_execution_dag db g =
           (snd (fst (select_loop db (t # post) (vis, g1))), snd (select_loop db (t # post) (vis, g1)))"
  by (simp add: pytask_resolve_dependencies_select_execution_dag_def sort select_loop_append pre
      split: prod.splits)

lemma select_loop_markers:
  "select_loop db ts (vis, g) = ((vis', g'), r) \<Longrightarrow> distinct ts \<Longrightarrow>
     markers_of g' n = markers_of g n \<or> markers_of g' n = markers_of g n @ [skip_unchanged]"
proof (induction ts arbitrary: vis g)
  case Nil
  then show ?case by simp
next
  case (Cons t ts)
  from Cons.prems(2) have dts: "distinct ts" and tts: "t \<notin> set ts" by simp_all
  show ?case
  proof (cases "t \<in> set vis")
    case True
    with Cons.prems have "select_loop db ts (vis, g) = ((vis', g'), r)" by simp
    from Cons.IH[OF this dts] show ?thesis .
  next
    case False
    note notvis = this
    show ?thesis
    proof (cases "have_task_or_neighbors_changed db t g")
      case (Inl e)
      with notvis Cons.prems show ?thesis by simp
    next
      case (Inr c)
      note hc = this
      show ?thesis
      proof (cases c)
        case True
        with hc notvis Cons.prems
        have "select_loop db ts (vis @ task_and_descending_tasks t g, g) = ((vis', g'), r)"
          by simp
        from Cons.IH[OF this dts] show ?thesis .
      next
        case False
        show ?thesis
        proof (cases "append_marker t skip_unchanged g")
          case (Inl e)
          with False hc notvis Cons.prems show ?thesis by simp
        next
          case (Inr g2)
          with False hc notvis Cons.prems
          have l: "select_loop db ts (vis, g2) = ((vis', g'), r)" by simp
          show ?thesis
          proof (cases "n = t")
            case True
            from select_loop_invariant[OF l] tts True
            have "markers_of g' n = markers_of g2 n" by simp
            with append_marker_markers[OF Inr] True show ?thesis by simp
          next
            case False
            with append_marker_markers[OF Inr] have "markers_of g2 n = markers_of g n" by simp
            with Cons.IH[OF l dts] show ?thesis by simp
          qed
        qed
      qed
    qed
  qed
qed

lemma select_markers:
  "markers_of (fst (pytask_resolve_dependencies_select_execution_dag db g)) n = markers_of g n \<or>
   markers_of (fst (pytask_resolve_dependencies_select_execution_dag db g)) n =
     markers_of g n @ [skip_unchanged]"
proof (cases "sort_tasks_topologically g")
  case (Inl e)
  then show ?thesis by (simp add: pytask_resolve_dependencies_select_execution_dag_def)
next
  case (Inr ts)
  obtain vis g' r where l: "select_loop db ts ([], g) = ((vis, g'), r)" by (metis surj_pair)
  from Inr have "distinct ts"
    by (blast dest: sort_tasks_follows_edges follows_edges_distinct)
  from select_loop_markers[OF l this, of n] l Inr show ?thesis
    by (simp add: pytask_resolve_dependencies_select_execution_dag_def)
qed

lemma any_changed_raises:
  assumes "\<forall>m \<in> set ns1. \<exists>b. node_attrs g m = Some b \<and> has_node_changed db t b = Inr False"
    and "node_attrs g n = Some a" and "has_node_changed db t a = Inl e"
  shows "any_changed db t g (ns1 @ n # ns2) = Inl e"
  using assms by (induction ns1) auto

lemma select_scan_raises:
  assumes sort: "sort_tasks_topologically g = Inr (pre @ t # post)"
    and pre: "select_loop db pre ([], g) = ((vis, g1), None)"
    and notvis: "t \<notin> set vis"
    and scan: "have_task_or_neighbors_changed db t g = Inl e"
  shows "pytask_resolve_dependencies_select_execution_dag db g = (g1, Some e)"
proof -
  from select_loop_invariant[OF pre] have "same_shape g g1" by simp
  with scan have "have_task_or_neighbors_changed db t g1 = Inl e"
    by (simp add: have_changed_same_shape)
  with notvis have "select_loop db (t # post) (vis, g1) = ((vis, g1), Some e)" by simp
  then show ?thesis
    unfolding select_decompose[OF sort pre] by simp
qed

section \<open>Evaluating the examples\<close>

lemmas eval_defs = pytask_resolve_dependencies_create_dag_def add_task_def add_edge_def add_node_def
  empty_graph_def empty_dict_def have_task_or_neighbors_changed_def node_and_neigbors_def
  predecessors_def successors_def node_attrs_def has_node_changed_def payload_def
  append_marker_def task_and_descending_tasks_def reaches_def has_task_def skip_unchanged_def
  markers_of_def

lemma graph_AB_eq:
  "graph_AB = \<lparr>nodes = [(''A'', \<lparr>task = Some task_A, node = None\<rparr>),
                         (''file1'', \<lparr>task = None, node = Some file1\<rparr>),
                         (''B'', \<lparr>task = Some task_B, node = None\<rparr>)],
               edges = [(''A'', ''file1''), (''file1'', ''B'')]\<rparr>"
  by (simp add: graph_AB_def eval_defs task_A_def task_B_def file1_def)

lemma graph_T_eq:
  "graph_T = \<lparr>nodes = [(''T'', \<lparr>task = Some task_T, node = None\<rparr>),
                        (''missing'', \<lparr>task = None, node = Some missing\<rparr>),
                        (''out'', \<lparr>task = None, node = Some out\<rparr>)],
              edges = [(''missing'', ''T''), (''out'', ''T''), (''T'', ''out'')]\<rparr>"
  by (simp add: graph_T_def eval_defs task_T_def missing_def out_def)

lemma graph_M_eq:
  "graph_M = \<lparr>nodes = [(''M'', \<lparr>task = Some task_M, node = None\<rparr>),
                        (''missing'', \<lparr>task = None, node = Some missing\<rparr>)],
              edges = [(''missing'', ''M'')]\<rparr>"
  by (simp add: graph_M_def eval_defs task_M_def missing_def)

lemma graph_L_eq:
  "graph_L = \<lparr>nodes = [(''L'', \<lparr>task = Some task_L, node = None\<rparr>),
                        (''locked'', \<lparr>task = None, node = Some locked\<rparr>),
                        (''missing'', \<lparr>task = None, node = Some missing\<rparr>)],
              edges = [(''locked'', ''L''), (''missing'', ''L'')]\<rparr>"
  by (simp add: graph_L_def eval_defs task_L_def missing_def locked_def)

lemma graph_E_eq:
  "graph_E = \<lparr>nodes = [(''E'', \<lparr>task = Some task_E, node = None\<rparr>),
                        (''locked'', \<lparr>task = None, node = Some locked\<rparr>)],
              edges = [(''E'', ''locked'')]\<rparr>"
  by (simp add: graph_E_def eval_defs task_E_def locked_def)

lemma graph_AF_eq:
  "graph_AF = \<lparr>nodes = [(''A'', \<lparr>task = Some task_A, node = None\<rparr>),
                         (''file1'', \<lparr>task = None, node = Some file1\<rparr>),
                         (''F'', \<lparr>task = Some task_F, node = None\<rparr>),
                         (''locked'', \<lparr>task = None, node = Some locked\<rparr>)],
               edges = [(''A'', ''file1''), (''file1'', ''F''), (''F'', ''locked'')]\<rparr>"
  by (simp add: graph_AF_def eval_defs task_A_def task_F_def file1_def locked_def)

lemma validate_graph_AB: "pytask_resolve_dependencies_validate_dag graph_AB = Inr ()"
  by (simp add: graph_AB_eq pytask_resolve_dependencies_validate_dag_def
        check_if_dag_has_cycles_def find_cycle_def check_if_root_nodes_are_available_def
        predecessors_def)

lemma sort_graph_AB: "sort_tasks_topologically graph_AB = Inr [''A'', ''B'']"
  by (simp add: graph_AB_eq sort_tasks_topologically_def reaches_def has_task_def node_attrs_def)

lemma select_graph_AB:
  "pytask_resolve_dependencies_select_execution_dag db_AB graph_AB =
     (graph_AB\<lparr>nodes := [(''A'', \<lparr>task = Some (task_A\<lparr>markers := [skip_unchanged]\<rparr>), node = None\<rparr>),
                         (''file1'', \<lparr>task = None, node = Some file1\<rparr>),
                         (''B'', \<lparr>task = Some (task_B\<lparr>markers := [skip_unchanged]\<rparr>), node = None\<rparr>)]\<rparr>,
      None)"
  unfolding pytask_resolve_dependencies_select_execution_dag_def sort_graph_AB
  by (simp add: graph_AB_eq have_task_or_neighbors_changed_def node_and_neigbors_def
        predecessors_def successors_def node_attrs_def has_node_changed_def payload_def
        append_marker_def db_AB_def task_A_def task_B_def file1_def)

lemma validate_graph_AF: "pytask_resolve_dependencies_validate_dag graph_AF = Inr ()"
  by (simp add: graph_AF_eq pytask_resolve_dependencies_validate_dag_def
        check_if_dag_has_cycles_def find_cycle_def check_if_root_nodes_are_available_def
        predecessors_def)

lemma sort_graph_AF: "sort_tasks_topologically graph_AF = Inr [''A'', ''F'']"
  by (simp add: graph_AF_eq sort_tasks_topologically_def reaches_def has_task_def node_attrs_def)

lemma select_graph_AF:
  "pytask_resolve_dependencies_select_execution_dag db_AF graph_AF =
     (graph_AF\<lparr>nodes := [(''A'', \<lparr>task = Some (task_A\<lparr>markers := [skip_unchanged]\<rparr>), node = None\<rparr>),
                         (''file1'', \<lparr>task = None, node = Some file1\<rparr>),
                         (''F'', \<lparr>task = Some task_F, node = None\<rparr>),
                         (''locked'', \<lparr>task = None, node = Some locked\<rparr>)]\<rparr>,
      Some (OtherException ''PermissionError''))"
  unfolding pytask_resolve_dependencies_select_execution_dag_def sort_graph_AF
  by (simp add: graph_AF_eq have_task_or_neighbors_changed_def node_and_neigbors_def
        predecessors_def successors_def node_attrs_def has_node_changed_def payload_def
        append_marker_def db_AF_def task_A_def task_F_def file1_def locked_def)

section \<open>Properties of the selection\<close>

text \<open>
  Claim C1 (monotonic invalidation). The loop runs over task names in an order that follows
  the edges. When the turn of a task \<open>t\<close> arrives and \<open>t\<close> is treated as changed, because it
  is already in \<^verbatim>\<open>visited_nodes\<close> or because the scan of its neighborhood says so, then
  \<open>t\<close> and every node that can be reached from \<open>t\<close> by a directed path has, at the end of the
  pass, the markers it had at the start: none of them gets \<^verbatim>\<open>skip_unchanged\<close> in this pass.
  With \<open>d = t\<close> and \<open>t\<close> in \<^verbatim>\<open>visited_nodes\<close> this is the second half of the claim: a task
  that is visited when its turn arrives receives no marker. The result of the loop is the
  state it ended in, so the statement also covers a pass that an exception ends later.
  The order that \<open>sort_tasks_topologically\<close> returns follows the edges
  (\<open>sort_tasks_follows_edges\<close>).
\<close>

theorem monotonic_invalidation:
  assumes fe: "follows_edges (edges g) tasks"
    and tasks: "tasks = pre @ t # post"
    and pre: "select_loop db pre ([], g) = ((visited_nodes, g1), None)"
    and changed: "t \<in> set visited_nodes \<or> have_task_or_neighbors_changed db t g1 = Inr True"
    and d: "d = t \<or> (t, d) \<in> (set (edges g))\<^sup>+"
  shows "markers_of (snd (fst (select_loop db tasks ([], g)))) d = markers_of g d"
proof -
  obtain vis' g' r where fin: "select_loop db tasks ([], g) = ((vis', g'), r)"
    by (metis surj_pair)
  from select_loop_invariant[OF pre] have sh1: "same_shape g g1"
    and m1: "\<And>x. x \<notin> set pre \<Longrightarrow> markers_of g1 x = markers_of g x"
    by auto
  from select_loop_invariant[OF fin] have sh: "same_shape g g'" by simp
  show ?thesis
  proof (cases "has_task g d")
    case False
    with sh have "\<not> has_task g' d" by (simp add: same_shape_def)
    with False fin show ?thesis by (simp add: markers_of_no_task)
  next
    case True
    from fe tasks follows_edges_append[of "edges g" pre t post]
    have tpre: "t \<notin> set pre" and reach: "\<forall>p \<in> set pre. (t, p) \<notin> (set (edges g))\<^sup>+"
      by auto
    with d have "d \<notin> set pre" by auto
    then have md: "markers_of g1 d = markers_of g d" by (rule m1)
    have "closed_under_tasks g []" by (simp add: closed_under_tasks_def)
    from select_loop_closed[OF pre this] have cl: "closed_under_tasks g1 visited_nodes" .
    from sh1 have e1: "edges g1 = edges g" and ht: "has_task g1 d"
      using True by (simp_all add: same_shape_def)
    from fin tasks pre have rest: "select_loop db (t # post) (visited_nodes, g1) = ((vis', g'), r)"
      by (simp add: select_loop_append)
    have "\<exists>vis2. select_loop db post (vis2, g1) = ((vis', g'), r) \<and> d \<in> set vis2"
    proof (cases "t \<in> set visited_nodes")
      case True
      with d cl ht e1 have "d \<in> set visited_nodes"
        unfolding closed_under_tasks_def by auto
      with True rest show ?thesis by auto
    next
      case False
      with changed have hc: "have_task_or_neighbors_changed db t g1 = Inr True" by simp
      from d ht e1 have "d \<in> set (task_and_descending_tasks t g1)"
        by (auto simp: descending_tasks_iff)
      with False hc rest show ?thesis by auto
    qed
    then obtain vis2 where l: "select_loop db post (vis2, g1) = ((vis', g'), r)"
      and dv: "d \<in> set vis2" by blast
    from select_loop_invariant[OF l] dv have "markers_of g' d = markers_of g1 d" by simp
    with md fin show ?thesis by simp
  qed
qed

text \<open>
  In the example \<open>A\<close> has no persisted state and is changed; the neighborhood of \<open>B\<close> is
  unchanged on its own, and still \<open>B\<close> is not marked.
\<close>

theorem monotonic_invalidation_witness:
  "follows_edges (edges graph_AB) [''A'', ''B''] \<and>
   select_loop db_B [] ([], graph_AB) = (([], graph_AB), None) \<and>
   have_task_or_neighbors_changed db_B ''A'' graph_AB = Inr True \<and>
   have_task_or_neighbors_changed db_B ''B'' graph_AB = Inr False \<and>
   (''A'', ''B'') \<in> (set (edges graph_AB))\<^sup>+ \<and>
   markers_of (snd (fst (select_loop db_B [''A'', ''B''] ([], graph_AB)))) ''B'' = []"
proof -
  have "\<not> reaches (edges graph_AB) ''B'' ''A''"
    by (simp add: graph_AB_eq reaches_def)
  then have fe: "follows_edges (edges graph_AB) [''A'', ''B'']"
    by (simp add: reaches_iff)
  have pre: "select_loop db_B [] ([], graph_AB) = (([], graph_AB), None)"
    by simp
  have ch: "have_task_or_neighbors_changed db_B ''A'' graph_AB = Inr True"
    by (simp add: graph_AB_eq eval_defs db_B_def task_A_def)
  have st: "have_task_or_neighbors_changed db_B ''B'' graph_AB = Inr False"
    by (simp add: graph_AB_eq eval_defs db_B_def task_B_def file1_def)
  have "reaches (edges graph_AB) ''A'' ''B''"
    by (simp add: graph_AB_eq reaches_def)
  then have r: "(''A'', ''B'') \<in> (set (edges graph_AB))\<^sup>+"
    by (simp add: reaches_iff)
  have m: "markers_of graph_AB ''B'' = []"
    by (simp add: graph_AB_eq markers_of_def node_attrs_def task_B_def)
  from monotonic_invalidation[OF fe _ pre, of "''A''" "[''B'']" "''B''"] ch r m
  have "markers_of (snd (fst (select_loop db_B [''A'', ''B''] ([], graph_AB)))) ''B'' = []"
    by simp
  with fe pre ch st r show ?thesis by blast
qed

text \<open>
  Claim C6 (first-run conservatism). With no persisted state for any pair of a task and a
  node, the selection returns the graph it was given: no task gets a marker, whatever the
  graph is and whether or not the pass ends with an exception. The same holds for the loop
  over any list of task names.
\<close>

theorem first_run_conservatism:
  "fst (pytask_resolve_dependencies_select_execution_dag (\<lambda>k. None) g) = g \<and>
   snd (fst (select_loop (\<lambda>k. None) tasks (visited_nodes, g))) = g"
proof -
  obtain vis' g' r where l: "select_loop (\<lambda>k. None) tasks (visited_nodes, g) = ((vis', g'), r)"
    by (metis surj_pair)
  from select_loop_empty_db[OF l] l
  have 2: "snd (fst (select_loop (\<lambda>k. None) tasks (visited_nodes, g))) = g" by simp
  have 1: "fst (pytask_resolve_dependencies_select_execution_dag (\<lambda>k. None) g) = g"
  proof (cases "sort_tasks_topologically g")
    case (Inl e)
    then show ?thesis by (simp add: pytask_resolve_dependencies_select_execution_dag_def)
  next
    case (Inr ts)
    obtain v2 g2 r2 where l2: "select_loop (\<lambda>k. None) ts ([], g) = ((v2, g2), r2)"
      by (metis surj_pair)
    from select_loop_empty_db[OF l2] l2 Inr show ?thesis
      by (simp add: pytask_resolve_dependencies_select_execution_dag_def)
  qed
  from 1 2 show ?thesis by simp
qed

theorem first_run_conservatism_witness:
  "pytask_resolve_dependencies_select_execution_dag (\<lambda>k. None) graph_AB = (graph_AB, None) \<and>
   markers_of graph_AB ''A'' = [] \<and> markers_of graph_AB ''B'' = []"
proof -
  have s: "sort_tasks_topologically graph_AB = Inr [''A'', ''B'']"
    by (simp add: graph_AB_eq sort_tasks_topologically_def reaches_def has_task_def node_attrs_def)
  have "snd (pytask_resolve_dependencies_select_execution_dag (\<lambda>k. None) graph_AB) = None"
    unfolding pytask_resolve_dependencies_select_execution_dag_def s
    by (simp add: graph_AB_eq eval_defs task_A_def task_B_def file1_def)
  with first_run_conservatism[of graph_AB "[]" "[]"]
  have "pytask_resolve_dependencies_select_execution_dag (\<lambda>k. None) graph_AB = (graph_AB, None)"
    by (simp add: prod_eq_iff)
  then show ?thesis
    by (simp add: graph_AB_eq markers_of_def node_attrs_def task_A_def task_B_def)
qed

section \<open>Properties of the comparison of states\<close>

text \<open>
  Claim C5 (failure of the state query), as the spec states it: every failure of the state
  lookup of a node makes \<^verbatim>\<open>_has_node_changed\<close> answer "changed" and never ends the
  selection. The function catches \<^verbatim>\<open>NodeNotFoundError\<close> only. For the product \<open>locked\<close>,
  whose \<^verbatim>\<open>state()\<close> raises another exception, the function raises that exception, and the
  selection of the graph that holds it ends with the exception.
\<close>

theorem state_query_fault_counterexample:
  "has_node_changed db_E ''E'' \<lparr>task = None, node = Some locked\<rparr> =
     Inl (OtherException ''PermissionError'') \<and>
   has_node_changed db_E ''E'' \<lparr>task = None, node = Some locked\<rparr> \<noteq> Inr True \<and>
   pytask_resolve_dependencies_select_execution_dag db_E graph_E =
     (graph_E, Some (OtherException ''PermissionError''))"
proof -
  have g: "graph_E = \<lparr>nodes = [(''E'', \<lparr>task = Some task_E, node = None\<rparr>),
                                (''locked'', \<lparr>task = None, node = Some locked\<rparr>)],
                      edges = [(''E'', ''locked'')]\<rparr>"
    by (simp add: graph_E_def eval_defs task_E_def locked_def)
  have s: "sort_tasks_topologically graph_E = Inr [''E'']"
    by (simp add: g sort_tasks_topologically_def reaches_def has_task_def node_attrs_def)
  have 1: "has_node_changed db_E ''E'' \<lparr>task = None, node = Some locked\<rparr> =
     Inl (OtherException ''PermissionError'')"
    by (simp add: has_node_changed_def payload_def locked_def)
  have "select_loop db_E [''E''] ([], graph_E) =
      (([], graph_E), Some (OtherException ''PermissionError''))"
    by (simp add: g eval_defs db_E_def task_E_def locked_def)
  then have 2: "pytask_resolve_dependencies_select_execution_dag db_E graph_E =
     (graph_E, Some (OtherException ''PermissionError''))"
    by (simp add: pytask_resolve_dependencies_select_execution_dag_def s)
  from 1 2 show ?thesis by simp
qed

text \<open>
  Claim C5, amended: when the \<^verbatim>\<open>state()\<close> of the payload raises \<^verbatim>\<open>NodeNotFoundError\<close>, the
  node counts as changed; when it raises any other exception, \<^verbatim>\<open>_has_node_changed\<close> raises
  that exception, and that ends the selection: when the pass reaches the turn of a task
  that is not visited, and the scan of its neighborhood comes to such a node after nodes
  that have not changed, the scan raises the exception and the selection ends with it, the
  graph being as the pass left it before that turn.
\<close>

theorem state_query_failure:
  "(payload a = Some (name, Raises_NodeNotFoundError) \<longrightarrow>
      has_node_changed db t a = Inr True) \<and>
   (payload a = Some (name, Raises_Other x) \<longrightarrow>
      has_node_changed db t a = Inl (OtherException x)) \<and>
   (sort_tasks_topologically g = Inr (pre @ t # post) \<and>
    select_loop db pre ([], g) = ((visited_nodes, g'), None) \<and>
    t \<notin> set visited_nodes \<and>
    node_and_neigbors g t = scanned @ n # rest \<and>
    (\<forall>m \<in> set scanned. \<exists>b. node_attrs g m = Some b \<and> has_node_changed db t b = Inr False) \<and>
    node_attrs g n = Some a \<and> payload a = Some (name, Raises_Other x) \<longrightarrow>
      have_task_or_neighbors_changed db t g = Inl (OtherException x) \<and>
      pytask_resolve_dependencies_select_execution_dag db g = (g', Some (OtherException x)))"
proof (intro conjI impI)
  assume "payload a = Some (name, Raises_NodeNotFoundError)"
  then show "has_node_changed db t a = Inr True" by (simp add: has_node_changed_def)
next
  assume "payload a = Some (name, Raises_Other x)"
  then show "has_node_changed db t a = Inl (OtherException x)" by (simp add: has_node_changed_def)
next
  assume a: "sort_tasks_topologically g = Inr (pre @ t # post) \<and>
    select_loop db pre ([], g) = ((visited_nodes, g'), None) \<and>
    t \<notin> set visited_nodes \<and>
    node_and_neigbors g t = scanned @ n # rest \<and>
    (\<forall>m \<in> set scanned. \<exists>b. node_attrs g m = Some b \<and> has_node_changed db t b = Inr False) \<and>
    node_attrs g n = Some a \<and> payload a = Some (name, Raises_Other x)"
  then have "has_node_changed db t a = Inl (OtherException x)" by (simp add: has_node_changed_def)
  with a have "any_changed db t g (scanned @ n # rest) = Inl (OtherException x)"
    by (intro any_changed_raises) simp_all
  with a show scan: "have_task_or_neighbors_changed db t g = Inl (OtherException x)"
    by (simp add: have_task_or_neighbors_changed_def)
  from a scan show "pytask_resolve_dependencies_select_execution_dag db g =
      (g', Some (OtherException x))"
    by (intro select_scan_raises[where pre = pre and t = t and post = post and vis = visited_nodes])
       simp_all
qed

theorem state_query_failure_witness:
  "payload \<lparr>task = None, node = Some (locked\<lparr>dn_state := Raises_NodeNotFoundError\<rparr>)\<rparr> =
     Some (''locked'', Raises_NodeNotFoundError) \<and>
   has_node_changed db_E ''E''
     \<lparr>task = None, node = Some (locked\<lparr>dn_state := Raises_NodeNotFoundError\<rparr>)\<rparr> = Inr True \<and>
   payload \<lparr>task = None, node = Some locked\<rparr> = Some (''locked'', Raises_Other ''PermissionError'') \<and>
   has_node_changed db_E ''E'' \<lparr>task = None, node = Some locked\<rparr> =
     Inl (OtherException ''PermissionError'') \<and>
   sort_tasks_topologically graph_E = Inr ([] @ ''E'' # []) \<and>
   select_loop db_E [] ([], graph_E) = (([], graph_E), None) \<and>
   node_and_neigbors graph_E ''E'' = [''E''] @ ''locked'' # [] \<and>
   node_attrs graph_E ''E'' = Some \<lparr>task = Some task_E, node = None\<rparr> \<and>
   has_node_changed db_E ''E'' \<lparr>task = Some task_E, node = None\<rparr> = Inr False \<and>
   node_attrs graph_E ''locked'' = Some \<lparr>task = None, node = Some locked\<rparr> \<and>
   have_task_or_neighbors_changed db_E ''E'' graph_E = Inl (OtherException ''PermissionError'') \<and>
   pytask_resolve_dependencies_select_execution_dag db_E graph_E =
     (graph_E, Some (OtherException ''PermissionError''))"
proof -
  have 1: "payload \<lparr>task = None, node = Some locked\<rparr> =
     Some (''locked'', Raises_Other ''PermissionError'')"
    by (simp add: payload_def locked_def)
  have 2: "payload \<lparr>task = None, node = Some (locked\<lparr>dn_state := Raises_NodeNotFoundError\<rparr>)\<rparr> =
     Some (''locked'', Raises_NodeNotFoundError)"
    by (simp add: payload_def locked_def)
  have 3: "sort_tasks_topologically graph_E = Inr ([] @ ''E'' # [])"
    by (simp add: graph_E_eq sort_tasks_topologically_def reaches_def has_task_def node_attrs_def)
  have 4: "select_loop db_E [] ([], graph_E) = (([], graph_E), None)" by simp
  have 5: "node_and_neigbors graph_E ''E'' = [''E''] @ ''locked'' # []"
    by (simp add: graph_E_eq node_and_neigbors_def predecessors_def successors_def)
  have 6: "node_attrs graph_E ''E'' = Some \<lparr>task = Some task_E, node = None\<rparr>"
    by (simp add: graph_E_eq node_attrs_def)
  have 7: "has_node_changed db_E ''E'' \<lparr>task = Some task_E, node = None\<rparr> = Inr False"
    by (simp add: has_node_changed_def payload_def task_E_def db_E_def)
  have 8: "node_attrs graph_E ''locked'' = Some \<lparr>task = None, node = Some locked\<rparr>"
    by (simp add: graph_E_eq node_attrs_def)
  from 6 7 have 9: "\<forall>m \<in> set [''E'']. \<exists>b. node_attrs graph_E m = Some b \<and>
      has_node_changed db_E ''E'' b = Inr False"
    by simp
  note th = state_query_failure[where db = db_E and t = "''E''" and g = graph_E
      and pre = "[]" and post = "[]" and visited_nodes = "[]" and g' = graph_E
      and scanned = "[''E'']" and n = "''locked''" and rest = "[]" and name = "''locked''"]
  from th[where a = "\<lparr>task = None, node = Some (locked\<lparr>dn_state := Raises_NodeNotFoundError\<rparr>)\<rparr>"
      and x = "''PermissionError''"] 2
  have a: "has_node_changed db_E ''E''
     \<lparr>task = None, node = Some (locked\<lparr>dn_state := Raises_NodeNotFoundError\<rparr>)\<rparr> = Inr True"
    by blast
  from th[where a = "\<lparr>task = None, node = Some locked\<rparr>" and x = "''PermissionError''"]
    1 3 4 5 8 9
  have b: "has_node_changed db_E ''E'' \<lparr>task = None, node = Some locked\<rparr> =
       Inl (OtherException ''PermissionError'') \<and>
     have_task_or_neighbors_changed db_E ''E'' graph_E = Inl (OtherException ''PermissionError'') \<and>
     pytask_resolve_dependencies_select_execution_dag db_E graph_E =
       (graph_E, Some (OtherException ''PermissionError''))"
    by (simp del: select_loop.simps)
  from 1 2 3 4 5 6 7 8 a b show ?thesis by blast
qed

text \<open>
  Claim C10 (the task payload comes first). For a node dictionary with a task payload the
  answer of \<^verbatim>\<open>_has_node_changed\<close> is computed from the name and the state of the task
  and does not depend on the data payload \<open>d\<close>, present or not; the data payload decides
  only when there is no task payload.
\<close>

theorem task_payload_preferred:
  "has_node_changed db task_name \<lparr>task = Some t, node = d\<rparr> =
     (case tn_state t of
        Raises_NodeNotFoundError \<Rightarrow> Inr True
      | Raises_Other x \<Rightarrow> Inl (OtherException x)
      | Returns state \<Rightarrow>
          (case db (task_name, tn_name t) of
             None \<Rightarrow> Inr True
           | Some state_in_db \<Rightarrow> Inr (state \<noteq> state_in_db))) \<and>
   has_node_changed db task_name \<lparr>task = None, node = Some n\<rparr> =
     (case dn_state n of
        Raises_NodeNotFoundError \<Rightarrow> Inr True
      | Raises_Other x \<Rightarrow> Inl (OtherException x)
      | Returns state \<Rightarrow>
          (case db (task_name, dn_name n) of
             None \<Rightarrow> Inr True
           | Some state_in_db \<Rightarrow> Inr (state \<noteq> state_in_db)))"
  by (simp add: has_node_changed_def payload_def)

section \<open>Properties of the built graph\<close>

lemma node_names_add_node: "node_names (add_node n f g) = insert n (node_names g)"
  by (auto simp: node_names_def add_node_def keys_update_attrs)

lemma edges_add_node: "edges (add_node n f g) = edges g"
  by (simp add: add_node_def)

lemma node_names_edges_update: "node_names (g\<lparr>edges := es\<rparr>) = node_names g"
  by (simp add: node_names_def)

lemma node_names_add_edge: "node_names (add_edge u v g) = insert u (insert v (node_names g))"
  by (simp add: add_edge_def Let_def node_names_edges_update node_names_add_node insert_commute)

lemma edges_add_edge: "set (edges (add_edge u v g)) = insert (u, v) (set (edges g))"
  by (auto simp: add_edge_def Let_def edges_add_node)

lemma add_dependencies_sets:
  "node_names (add_dependencies t ds g) =
     node_names g \<union> dn_name ` set ds \<union> (if ds = [] then {} else {t}) \<and>
   set (edges (add_dependencies t ds g)) = set (edges g) \<union> (\<lambda>d. (dn_name d, t)) ` set ds"
  by (induction ds arbitrary: g)
     (auto simp: node_names_add_edge node_names_add_node edges_add_edge edges_add_node)

lemma add_products_sets:
  "node_names (add_products t ps g) =
     node_names g \<union> dn_name ` set ps \<union> (if ps = [] then {} else {t}) \<and>
   set (edges (add_products t ps g)) = set (edges g) \<union> (\<lambda>p. (t, dn_name p)) ` set ps"
  by (induction ps arbitrary: g)
     (auto simp: node_names_add_edge node_names_add_node edges_add_edge edges_add_node)

lemma add_task_sets:
  "node_names (add_task t g) = node_names g \<union> declared_names t \<and>
   set (edges (add_task t g)) = set (edges g) \<union> declared_edges t"
  by (auto simp: add_task_def add_products_sets add_dependencies_sets node_names_add_node
      edges_add_node declared_names_def declared_edges_def)

lemma add_tasks_sets:
  "node_names (add_tasks ts g) = node_names g \<union> (\<Union>t \<in> set ts. declared_names t) \<and>
   set (edges (add_tasks ts g)) = set (edges g) \<union> (\<Union>t \<in> set ts. declared_edges t)"
  by (induction ts arbitrary: g) (auto simp: add_task_sets)

lemma create_dag_sets:
  "node_names (pytask_resolve_dependencies_create_dag ts) = (\<Union>t \<in> set ts. declared_names t) \<and>
   set (edges (pytask_resolve_dependencies_create_dag ts)) = (\<Union>t \<in> set ts. declared_edges t)"
  by (simp add: pytask_resolve_dependencies_create_dag_def add_tasks_sets)
     (simp add: node_names_def empty_graph_def)

lemma declared_edges_names:
  "e \<in> declared_edges t \<Longrightarrow> fst e \<in> declared_names t \<and> snd e \<in> declared_names t"
  by (auto simp: declared_names_def declared_edges_def)

lemma create_dag_edges_between_nodes:
  "edges_between_nodes (pytask_resolve_dependencies_create_dag ts)"
proof -
  have "fst e \<in> node_names (pytask_resolve_dependencies_create_dag ts) \<and>
        snd e \<in> node_names (pytask_resolve_dependencies_create_dag ts)"
    if "e \<in> set (edges (pytask_resolve_dependencies_create_dag ts))" for e
  proof -
    from that obtain t where t: "t \<in> set ts" and e: "e \<in> declared_edges t"
      by (auto simp: create_dag_sets)
    from declared_edges_names[OF e] t show ?thesis
      unfolding create_dag_sets[THEN conjunct1] by blast
  qed
  then show ?thesis
    by (simp add: edges_between_nodes_def list_all_iff node_names_def)
qed

lemma same_of_sets:
  assumes "(\<Union>t \<in> set ts'. declared_names t) = (\<Union>t \<in> set ts. declared_names t)"
    and "(\<Union>t \<in> set ts'. declared_edges t) = (\<Union>t \<in> set ts. declared_edges t)"
  shows "same_nodes_and_edges (pytask_resolve_dependencies_create_dag ts')
           (pytask_resolve_dependencies_create_dag ts)"
  using assms by (simp add: same_nodes_and_edges_def create_dag_sets)

lemma reordered_lists_declared:
  assumes "reordered_lists t t'"
  shows "declared_names t' = declared_names t \<and> declared_edges t' = declared_edges t"
proof -
  from assms have n: "tn_name t' = tn_name t"
    and "set (depends_on t') = set (depends_on t)" and "set (produces t') = set (produces t)"
    by (auto simp: reordered_lists_def dest: mset_eq_setD)
  then show ?thesis by (simp add: declared_names_def declared_edges_def)
qed

lemma reordered_unions:
  assumes "list_all2 reordered_lists ts ts'"
  shows "(\<Union>t \<in> set ts'. declared_names t) = (\<Union>t \<in> set ts. declared_names t) \<and>
         (\<Union>t \<in> set ts'. declared_edges t) = (\<Union>t \<in> set ts. declared_edges t)"
  using assms by (induction rule: list_all2_induct) (auto dest!: reordered_lists_declared)

text \<open>
  Claim C8 (the build is total and does not depend on order or repetition). The build is a
  total function with no error branch, as the source has none. The graph built from a
  permutation of the tasks, the graph built from tasks whose dependency and product lists
  are permuted, and the graph built from the tasks given twice have the same node names
  and the same edges as the graph built from the tasks: adding a node or an edge that is
  there changes neither set. The insertion order of the edges may differ, as the example
  shows.
\<close>

theorem build_order_independent:
  "(mset ts' = mset ts \<longrightarrow>
      same_nodes_and_edges (pytask_resolve_dependencies_create_dag ts')
        (pytask_resolve_dependencies_create_dag ts)) \<and>
   (list_all2 reordered_lists ts ts' \<longrightarrow>
      same_nodes_and_edges (pytask_resolve_dependencies_create_dag ts')
        (pytask_resolve_dependencies_create_dag ts)) \<and>
   same_nodes_and_edges (pytask_resolve_dependencies_create_dag (ts @ ts))
     (pytask_resolve_dependencies_create_dag ts)"
proof (intro conjI impI)
  assume "mset ts' = mset ts"
  then have "set ts' = set ts" by (rule mset_eq_setD)
  then show "same_nodes_and_edges (pytask_resolve_dependencies_create_dag ts')
        (pytask_resolve_dependencies_create_dag ts)"
    by (intro same_of_sets) simp_all
next
  assume "list_all2 reordered_lists ts ts'"
  from reordered_unions[OF this]
  show "same_nodes_and_edges (pytask_resolve_dependencies_create_dag ts')
        (pytask_resolve_dependencies_create_dag ts)"
    by (intro same_of_sets) simp_all
next
  show "same_nodes_and_edges (pytask_resolve_dependencies_create_dag (ts @ ts))
     (pytask_resolve_dependencies_create_dag ts)"
    by (intro same_of_sets) simp_all
qed

theorem build_order_independent_witness:
  "mset [task_B, task_A] = mset [task_A, task_B] \<and>
   same_nodes_and_edges (pytask_resolve_dependencies_create_dag [task_B, task_A])
     (pytask_resolve_dependencies_create_dag [task_A, task_B]) \<and>
   list_all2 reordered_lists [task_T] [task_T\<lparr>depends_on := [out, missing]\<rparr>] \<and>
   same_nodes_and_edges (pytask_resolve_dependencies_create_dag [task_T\<lparr>depends_on := [out, missing]\<rparr>])
     (pytask_resolve_dependencies_create_dag [task_T]) \<and>
   edges (pytask_resolve_dependencies_create_dag [task_T\<lparr>depends_on := [out, missing]\<rparr>]) \<noteq>
     edges (pytask_resolve_dependencies_create_dag [task_T])"
proof -
  have 1: "mset [task_B, task_A] = mset [task_A, task_B]" by (simp add: add.commute)
  have 2: "list_all2 reordered_lists [task_T] [task_T\<lparr>depends_on := [out, missing]\<rparr>]"
    by (simp add: reordered_lists_def task_T_def add.commute)
  have 3: "edges (pytask_resolve_dependencies_create_dag [task_T\<lparr>depends_on := [out, missing]\<rparr>]) \<noteq>
     edges (pytask_resolve_dependencies_create_dag [task_T])"
    by (simp add: eval_defs task_T_def missing_def out_def)
  from build_order_independent[of "[task_B, task_A]" "[task_A, task_B]"] 1
    build_order_independent[of "[task_T\<lparr>depends_on := [out, missing]\<rparr>]" "[task_T]"] 2 3
  show ?thesis by blast
qed

lemma in_update_attrs:
  "(n, a) \<in> set (update_attrs f k ps) \<Longrightarrow>
     (n, a) \<in> set ps \<or> (n = k \<and> (\<exists>b. a = f b \<and> ((k, b) \<in> set ps \<or> b = empty_dict)))"
  by (induction ps) (auto split: if_splits)

lemma update_attrs_id: "k \<in> fst ` set ps \<Longrightarrow> update_attrs id k ps = ps"
  by (induction ps) (fastforce simp: image_iff)+

lemma nodes_add_edge:
  "u \<in> node_names g \<Longrightarrow> v \<in> node_names g \<Longrightarrow> nodes (add_edge u v g) = nodes g"
  by (simp add: add_edge_def Let_def add_node_def node_names_def update_attrs_id)

lemma payload_inv_mono:
  "payload_inv T D g \<Longrightarrow> T \<subseteq> T' \<Longrightarrow> D \<subseteq> D' \<Longrightarrow> payload_inv T' D' g"
  unfolding payload_inv_def by blast

lemma payload_inv_add_task:
  assumes "payload_inv T D g"
  shows "payload_inv (insert n T) D (add_node n (\<lambda>a. a\<lparr>task := Some t\<rparr>) g)"
  unfolding payload_inv_def
proof (intro allI impI)
  fix m a
  assume "(m, a) \<in> set (nodes (add_node n (\<lambda>a. a\<lparr>task := Some t\<rparr>) g))"
  then have "(m, a) \<in> set (update_attrs (\<lambda>a. a\<lparr>task := Some t\<rparr>) n (nodes g))"
    by (simp add: add_node_def)
  from in_update_attrs[OF this] assms
  show "(task a \<noteq> None \<or> node a \<noteq> None) \<and> (task a \<noteq> None \<longrightarrow> m \<in> insert n T) \<and>
        (node a \<noteq> None \<longrightarrow> m \<in> D)"
    unfolding payload_inv_def by (auto simp: empty_dict_def)
qed

lemma payload_inv_add_data:
  assumes "payload_inv T D g"
  shows "payload_inv T (insert n D) (add_node n (\<lambda>a. a\<lparr>node := Some d\<rparr>) g)"
  unfolding payload_inv_def
proof (intro allI impI)
  fix m a
  assume "(m, a) \<in> set (nodes (add_node n (\<lambda>a. a\<lparr>node := Some d\<rparr>) g))"
  then have "(m, a) \<in> set (update_attrs (\<lambda>a. a\<lparr>node := Some d\<rparr>) n (nodes g))"
    by (simp add: add_node_def)
  from in_update_attrs[OF this] assms
  show "(task a \<noteq> None \<or> node a \<noteq> None) \<and> (task a \<noteq> None \<longrightarrow> m \<in> T) \<and>
        (node a \<noteq> None \<longrightarrow> m \<in> insert n D)"
    unfolding payload_inv_def by (auto simp: empty_dict_def)
qed

lemma payload_inv_nodes: "nodes g' = nodes g \<Longrightarrow> payload_inv T D g' = payload_inv T D g"
  by (simp add: payload_inv_def)

lemma payload_inv_add_dependencies:
  "t \<in> node_names g \<Longrightarrow> payload_inv T D g \<Longrightarrow>
     payload_inv T (D \<union> dn_name ` set ds) (add_dependencies t ds g)"
proof (induction ds arbitrary: g D)
  case Nil
  then show ?case by simp
next
  case (Cons d ds)
  let ?g1 = "add_node (dn_name d) (\<lambda>a. a\<lparr>node := Some d\<rparr>) g"
  have n1: "t \<in> node_names ?g1" "dn_name d \<in> node_names ?g1"
    using Cons.prems(1) by (simp_all add: node_names_add_node)
  then have nodes: "nodes (add_edge (dn_name d) t ?g1) = nodes ?g1"
    by (simp add: nodes_add_edge)
  from payload_inv_add_data[OF Cons.prems(2)]
  have "payload_inv T (insert (dn_name d) D) (add_edge (dn_name d) t ?g1)"
    by (simp add: payload_inv_nodes[OF nodes])
  moreover have "t \<in> node_names (add_edge (dn_name d) t ?g1)"
    by (simp add: node_names_add_edge)
  ultimately have "payload_inv T (insert (dn_name d) D \<union> dn_name ` set ds)
      (add_dependencies t ds (add_edge (dn_name d) t ?g1))"
    by (rule Cons.IH[rotated])
  then show ?case by simp
qed

lemma payload_inv_add_products:
  "t \<in> node_names g \<Longrightarrow> payload_inv T D g \<Longrightarrow>
     payload_inv T (D \<union> dn_name ` set ps) (add_products t ps g)"
proof (induction ps arbitrary: g D)
  case Nil
  then show ?case by simp
next
  case (Cons p ps)
  let ?g1 = "add_node (dn_name p) (\<lambda>a. a\<lparr>node := Some p\<rparr>) g"
  have n1: "t \<in> node_names ?g1" "dn_name p \<in> node_names ?g1"
    using Cons.prems(1) by (simp_all add: node_names_add_node)
  then have nodes: "nodes (add_edge t (dn_name p) ?g1) = nodes ?g1"
    by (simp add: nodes_add_edge)
  from payload_inv_add_data[OF Cons.prems(2)]
  have "payload_inv T (insert (dn_name p) D) (add_edge t (dn_name p) ?g1)"
    by (simp add: payload_inv_nodes[OF nodes])
  moreover have "t \<in> node_names (add_edge t (dn_name p) ?g1)"
    by (simp add: node_names_add_edge)
  ultimately have "payload_inv T (insert (dn_name p) D \<union> dn_name ` set ps)
      (add_products t ps (add_edge t (dn_name p) ?g1))"
    by (rule Cons.IH[rotated])
  then show ?case by simp
qed

lemma payload_inv_add_task_full:
  assumes "payload_inv T D g"
  shows "payload_inv (insert (tn_name t) T) (D \<union> data_names t) (add_task t g)"
proof -
  let ?g1 = "add_node (tn_name t) (\<lambda>a. a\<lparr>task := Some t\<rparr>) g"
  let ?g2 = "add_dependencies (tn_name t) (depends_on t) ?g1"
  have 1: "payload_inv (insert (tn_name t) T) D ?g1"
    using assms by (rule payload_inv_add_task)
  have k1: "tn_name t \<in> node_names ?g1" by (simp add: node_names_add_node)
  from payload_inv_add_dependencies[OF k1 1]
  have 2: "payload_inv (insert (tn_name t) T) (D \<union> dn_name ` set (depends_on t)) ?g2" .
  have k2: "tn_name t \<in> node_names ?g2" using k1 by (simp add: add_dependencies_sets)
  from payload_inv_add_products[OF k2 2]
  show ?thesis by (simp add: add_task_def data_names_def Un_assoc)
qed

lemma payload_inv_add_tasks:
  "payload_inv T D g \<Longrightarrow>
     payload_inv (T \<union> tn_name ` set ts) (D \<union> (\<Union>t \<in> set ts. data_names t)) (add_tasks ts g)"
proof (induction ts arbitrary: T D g)
  case Nil
  then show ?case by simp
next
  case (Cons t ts)
  from Cons.IH[OF payload_inv_add_task_full[OF Cons.prems, of t]]
  show ?case by (simp add: Un_assoc Un_left_commute insert_commute)
qed

lemma payload_inv_create_dag:
  "payload_inv (tn_name ` set ts) (\<Union>t \<in> set ts. data_names t)
     (pytask_resolve_dependencies_create_dag ts)"
proof -
  have "payload_inv {} {} empty_graph" by (simp add: payload_inv_def empty_graph_def)
  from payload_inv_add_tasks[OF this, of ts] show ?thesis
    by (simp add: pytask_resolve_dependencies_create_dag_def)
qed

text \<open>
  Claim C9 (exclusive payloads), as the spec states it: no node of a built graph carries a
  task payload and a data payload at once. \<^verbatim>\<open>add_node\<close> updates the dictionary of a node
  that is there, so a task and a dependency with the same name end up in one dictionary.
\<close>

theorem both_payloads_counterexample:
  "nodes (pytask_resolve_dependencies_create_dag [task_a]) =
     [(''a'', \<lparr>task = Some task_a, node = Some data_a\<rparr>)]"
  by (simp add: eval_defs task_a_def data_a_def)

text \<open>
  Claim C9, amended: every node of a built graph carries a task payload or a data payload,
  and it carries both only when its name is the name of a task and also the name of a
  dependency or product.
\<close>

theorem payload_of_built_nodes:
  assumes "(n, a) \<in> set (nodes (pytask_resolve_dependencies_create_dag ts))"
  shows "(task a \<noteq> None \<or> node a \<noteq> None) \<and>
         (task a \<noteq> None \<and> node a \<noteq> None \<longrightarrow>
            n \<in> tn_name ` set ts \<and> n \<in> (\<Union>t \<in> set ts. data_names t))"
  using payload_inv_create_dag[of ts] assms unfolding payload_inv_def by blast

theorem payload_of_built_nodes_witness:
  "(''A'', \<lparr>task = Some task_A, node = None\<rparr>) \<in> set (nodes graph_AB) \<and>
   (''a'', \<lparr>task = Some task_a, node = Some data_a\<rparr>) \<in>
      set (nodes (pytask_resolve_dependencies_create_dag [task_a])) \<and>
   ''a'' \<in> tn_name ` set [task_a] \<and> ''a'' \<in> (\<Union>t \<in> set [task_a]. data_names t)"
proof -
  have 1: "(''a'', \<lparr>task = Some task_a, node = Some data_a\<rparr>) \<in>
      set (nodes (pytask_resolve_dependencies_create_dag [task_a]))"
    by (simp add: eval_defs task_a_def data_a_def)
  have 2: "(''A'', \<lparr>task = Some task_A, node = None\<rparr>) \<in> set (nodes graph_AB)"
    by (simp add: graph_AB_eq)
  from payload_of_built_nodes[OF 1]
  have "''a'' \<in> tn_name ` set [task_a] \<and> ''a'' \<in> (\<Union>t \<in> set [task_a]. data_names t)"
    by (simp del: set_simps UN_simps)
  with 1 2 show ?thesis by blast
qed

section \<open>Properties of the validation\<close>

lemma is_walk_start: "is_walk es u p v \<Longrightarrow> p \<noteq> [] \<and> fst (hd p) = u"
  by (cases p) (auto simp: is_walk_Cons)

lemma find_cycle_closed:
  assumes "find_cycle g = Some c"
  shows "closed_path g c"
proof -
  from assms obtain n where "find_path (edges g) (length (edges g)) n n = Some c"
    by (auto simp: find_cycle_def dest!: first_some_Some)
  then have w: "is_walk (edges g) n c n" by (rule find_path_walk)
  with is_walk_start[OF w] show ?thesis by (simp add: closed_path_def)
qed

lemma find_cycle_has_cycle:
  assumes "find_cycle g = Some c"
  shows "has_cycle g"
proof -
  from find_cycle_closed[OF assms]
  have "is_walk (edges g) (fst (hd c)) c (fst (hd c))" by (simp add: closed_path_def)
  then show ?thesis unfolding has_cycle_def by (blast dest: is_walk_trancl)
qed

lemma find_cycle_complete:
  assumes wf: "edges_between_nodes g" and cyc: "has_cycle g"
  shows "find_cycle g \<noteq> None"
proof -
  from cyc obtain n where n: "(n, n) \<in> (set (edges g))\<^sup>+" by (auto simp: has_cycle_def)
  then obtain m where "(n, m) \<in> set (edges g)" by (meson tranclD)
  with wf have key: "n \<in> set (map fst (nodes g))"
    by (force simp: edges_between_nodes_def list_all_iff)
  from n have "find_path (edges g) (length (edges g)) n n \<noteq> None"
    by (simp add: reaches_iff[symmetric] reaches_def)
  with key show ?thesis
    unfolding find_cycle_def first_some_None by force
qed

lemma validate_cycle_error:
  "pytask_resolve_dependencies_validate_dag g = Inl (ResolvingDependenciesError (Some c)) \<longleftrightarrow>
     find_cycle g = Some c"
proof -
  have "check_roots g ps \<noteq> Inl (ResolvingDependenciesError x)" for ps x
    by (induction ps) (auto split: state_outcome.splits if_splits)
  then show ?thesis
    by (auto simp: pytask_resolve_dependencies_validate_dag_def check_if_dag_has_cycles_def
        check_if_root_nodes_are_available_def split: option.splits)
qed

text \<open>
  Claim C3 (cycle soundness). For every graph whose edges run between its nodes, the
  validation raises the error of the cycle check exactly when the graph has a directed
  cycle; the edge list the error carries is not empty, consists of edges of the graph, each
  starting where the one before ends, and ends at the node it starts from; and on a graph
  without a cycle the cycle check returns normally.
\<close>

theorem cycle_soundness:
  assumes "edges_between_nodes g"
  shows "((\<exists>c. pytask_resolve_dependencies_validate_dag g =
               Inl (ResolvingDependenciesError (Some c))) \<longleftrightarrow> has_cycle g) \<and>
         (\<forall>c. pytask_resolve_dependencies_validate_dag g =
               Inl (ResolvingDependenciesError (Some c)) \<longrightarrow> closed_path g c) \<and>
         (\<not> has_cycle g \<longrightarrow> check_if_dag_has_cycles g = Inr ())"
proof -
  have 1: "(\<exists>c. pytask_resolve_dependencies_validate_dag g =
               Inl (ResolvingDependenciesError (Some c))) \<longleftrightarrow> has_cycle g"
    unfolding validate_cycle_error
    using find_cycle_has_cycle find_cycle_complete[OF assms] by auto
  have 2: "\<forall>c. pytask_resolve_dependencies_validate_dag g =
               Inl (ResolvingDependenciesError (Some c)) \<longrightarrow> closed_path g c"
    unfolding validate_cycle_error by (simp add: find_cycle_closed)
  have 3: "\<not> has_cycle g \<longrightarrow> check_if_dag_has_cycles g = Inr ()"
    using find_cycle_has_cycle[of g]
    by (auto simp: check_if_dag_has_cycles_def split: option.splits)
  from 1 2 3 show ?thesis by blast
qed

lemma validate_graph_T:
  "pytask_resolve_dependencies_validate_dag graph_T =
     Inl (ResolvingDependenciesError (Some [(''T'', ''out''), (''out'', ''T'')]))"
  by (simp add: graph_T_eq pytask_resolve_dependencies_validate_dag_def
      check_if_dag_has_cycles_def find_cycle_def)

theorem cycle_soundness_witness:
  "edges_between_nodes graph_T \<and> has_cycle graph_T \<and>
   pytask_resolve_dependencies_validate_dag graph_T =
     Inl (ResolvingDependenciesError (Some [(''T'', ''out''), (''out'', ''T'')])) \<and>
   closed_path graph_T [(''T'', ''out''), (''out'', ''T'')] \<and>
   edges_between_nodes graph_AB \<and> \<not> has_cycle graph_AB \<and>
   check_if_dag_has_cycles graph_AB = Inr ()"
proof -
  have w: "edges_between_nodes graph_T"
    by (simp add: graph_T_eq edges_between_nodes_def)
  have w2: "edges_between_nodes graph_AB"
    by (simp add: graph_AB_eq edges_between_nodes_def)
  have fc: "find_cycle graph_AB = None"
    by (simp add: graph_AB_eq find_cycle_def)
  then have c: "check_if_dag_has_cycles graph_AB = Inr ()"
    by (simp add: check_if_dag_has_cycles_def)
  from fc have v2: "\<And>c. pytask_resolve_dependencies_validate_dag graph_AB \<noteq>
      Inl (ResolvingDependenciesError (Some c))"
    by (simp add: validate_cycle_error)
  from cycle_soundness[OF w] validate_graph_T
  have "has_cycle graph_T \<and> closed_path graph_T [(''T'', ''out''), (''out'', ''T'')]"
    by blast
  moreover from cycle_soundness[OF w2] v2 have "\<not> has_cycle graph_AB" by blast
  ultimately show ?thesis using w w2 c validate_graph_T by blast
qed

lemma check_roots_step:
  "check_roots g (p # ps) =
     (case root_state g p of
        None \<Rightarrow> check_roots g ps
      | Some (Returns s) \<Rightarrow> check_roots g ps
      | Some Raises_NodeNotFoundError \<Rightarrow> Inl (NodeNotFoundError (fst p) (successors g (fst p)))
      | Some (Raises_Other x) \<Rightarrow> Inl (OtherException x))"
  by (cases p) (auto simp: root_state_def Let_def split: option.splits state_outcome.splits)

lemma check_roots_passes:
  "\<forall>p \<in> set pre. root_passes g p \<Longrightarrow> check_roots g (pre @ ps) = check_roots g ps"
proof (induction pre)
  case Nil
  show ?case by simp
next
  case (Cons p pre)
  then have "root_passes g p" and "check_roots g (pre @ ps) = check_roots g ps" by simp_all
  then show ?case
    by (auto simp: check_roots_step root_passes_def simp del: check_roots.simps)
qed

lemma check_roots_missing:
  "check_roots g ps = Inl (NodeNotFoundError n ss) \<Longrightarrow>
     ss = successors g n \<and>
     (\<exists>pre a post. ps = pre @ (n, a) # post \<and>
        root_state g (n, a) = Some Raises_NodeNotFoundError \<and> (\<forall>p \<in> set pre. root_passes g p))"
proof (induction ps)
  case Nil
  then show ?case by simp
next
  case (Cons p ps)
  show ?case
  proof (cases "root_passes g p")
    case True
    with Cons.prems have "check_roots g ps = Inl (NodeNotFoundError n ss)"
      by (auto simp: check_roots_step root_passes_def simp del: check_roots.simps)
    from Cons.IH[OF this] obtain pre a post where ss: "ss = successors g n"
      and ps: "ps = pre @ (n, a) # post"
      and r: "root_state g (n, a) = Some Raises_NodeNotFoundError"
      and pre: "\<forall>p \<in> set pre. root_passes g p"
      by blast
    from ps have "p # ps = (p # pre) @ (n, a) # post" by simp
    moreover from pre True have "\<forall>q \<in> set (p # pre). root_passes g q" by simp
    ultimately show ?thesis using ss r by blast
  next
    case False
    with Cons.prems have "fst p = n" and ss: "ss = successors g n"
      and r: "root_state g p = Some Raises_NodeNotFoundError"
      by (auto simp: check_roots_step root_passes_def simp del: check_roots.simps
          split: option.splits state_outcome.splits)
    then have "p # ps = [] @ (n, snd p) # ps" by (cases p) simp
    moreover from r \<open>fst p = n\<close> have "root_state g (n, snd p) = Some Raises_NodeNotFoundError"
      by (cases p) simp
    ultimately show ?thesis using ss by (metis empty_iff list.set(1))
  qed
qed

lemma check_roots_iff:
  "check_roots g ps = Inl (NodeNotFoundError n ss) \<longleftrightarrow>
     ss = successors g n \<and>
     (\<exists>pre a post. ps = pre @ (n, a) # post \<and>
        root_state g (n, a) = Some Raises_NodeNotFoundError \<and> (\<forall>p \<in> set pre. root_passes g p))"
proof
  assume "check_roots g ps = Inl (NodeNotFoundError n ss)"
  then show "ss = successors g n \<and>
     (\<exists>pre a post. ps = pre @ (n, a) # post \<and>
        root_state g (n, a) = Some Raises_NodeNotFoundError \<and> (\<forall>p \<in> set pre. root_passes g p))"
    by (rule check_roots_missing)
next
  assume r: "ss = successors g n \<and>
     (\<exists>pre a post. ps = pre @ (n, a) # post \<and>
        root_state g (n, a) = Some Raises_NodeNotFoundError \<and> (\<forall>p \<in> set pre. root_passes g p))"
  then obtain pre a post where ps: "ps = pre @ (n, a) # post"
    and st: "root_state g (n, a) = Some Raises_NodeNotFoundError"
    and pre: "\<forall>p \<in> set pre. root_passes g p"
    by blast
  from check_roots_passes[OF pre] ps
  have "check_roots g ps = check_roots g ((n, a) # post)" by simp
  also from st have "\<dots> = Inl (NodeNotFoundError n (successors g n))"
    by (simp add: check_roots_step del: check_roots.simps)
  finally show "check_roots g ps = Inl (NodeNotFoundError n ss)" using r by simp
qed

lemma validate_missing_root:
  "pytask_resolve_dependencies_validate_dag g = Inl (NodeNotFoundError n ss) \<longleftrightarrow>
     find_cycle g = None \<and> check_roots g (nodes g) = Inl (NodeNotFoundError n ss)"
  by (auto simp: pytask_resolve_dependencies_validate_dag_def check_if_dag_has_cycles_def
      check_if_root_nodes_are_available_def split: option.splits)

text \<open>
  Claim C4 (root completeness), as the spec states it: the validation raises the error of
  the root check exactly when some node with a data payload and no incoming edge reports
  that it does not exist. The cycle check runs first, and the root check stops at the first
  root whose \<^verbatim>\<open>state()\<close> raises anything. In \<open>graph_T\<close> the input \<open>missing\<close> is such a
  node, and the validation raises the error of the cycle check; in \<open>graph_L\<close> it is such a
  node too, and the validation raises the exception of the root \<open>locked\<close> before it.
\<close>

theorem root_completeness_counterexample:
  "(''missing'', \<lparr>task = None, node = Some missing\<rparr>) \<in> set (nodes graph_T) \<and>
   predecessors graph_T ''missing'' = [] \<and>
   dn_state missing = Raises_NodeNotFoundError \<and>
   pytask_resolve_dependencies_validate_dag graph_T =
     Inl (ResolvingDependenciesError (Some [(''T'', ''out''), (''out'', ''T'')])) \<and>
   (''missing'', \<lparr>task = None, node = Some missing\<rparr>) \<in> set (nodes graph_L) \<and>
   predecessors graph_L ''missing'' = [] \<and>
   pytask_resolve_dependencies_validate_dag graph_L = Inl (OtherException ''PermissionError'')"
proof -
  have "pytask_resolve_dependencies_validate_dag graph_L = Inl (OtherException ''PermissionError'')"
    by (simp add: graph_L_eq pytask_resolve_dependencies_validate_dag_def
        check_if_dag_has_cycles_def find_cycle_def check_if_root_nodes_are_available_def
        predecessors_def successors_def locked_def)
  moreover have "predecessors graph_L ''missing'' = []"
    by (simp add: graph_L_eq predecessors_def)
  moreover have "predecessors graph_T ''missing'' = []"
    by (simp add: graph_T_eq predecessors_def)
  moreover have "(''missing'', \<lparr>task = None, node = Some missing\<rparr>) \<in> set (nodes graph_T)"
    by (simp add: graph_T_eq)
  moreover have "(''missing'', \<lparr>task = None, node = Some missing\<rparr>) \<in> set (nodes graph_L)"
    by (simp add: graph_L_eq)
  moreover have "dn_state missing = Raises_NodeNotFoundError" by (simp add: missing_def)
  ultimately show ?thesis using validate_graph_T by blast
qed

text \<open>
  Claim C4, amended: for every graph whose edges run between its nodes, the validation
  raises \<^verbatim>\<open>NodeNotFoundError\<close> for the node \<open>n\<close> with the list \<open>ss\<close> exactly when the graph
  has no directed cycle, \<open>n\<close> has a data payload and no incoming edge and its \<^verbatim>\<open>state()\<close>
  raises \<^verbatim>\<open>NodeNotFoundError\<close>, every node before \<open>n\<close> in insertion order is not such a
  root or returns its state, and \<open>ss\<close> is the list of the direct successors of \<open>n\<close>. So a
  root that exists never triggers the error.
\<close>

theorem root_completeness:
  assumes "edges_between_nodes g"
  shows "pytask_resolve_dependencies_validate_dag g = Inl (NodeNotFoundError n ss) \<longleftrightarrow>
     \<not> has_cycle g \<and> ss = successors g n \<and>
     (\<exists>pre a post. nodes g = pre @ (n, a) # post \<and>
        root_state g (n, a) = Some Raises_NodeNotFoundError \<and> (\<forall>p \<in> set pre. root_passes g p))"
proof -
  have "find_cycle g = None \<longleftrightarrow> \<not> has_cycle g"
    using find_cycle_has_cycle[of g] find_cycle_complete[OF assms]
    by (cases "find_cycle g") auto
  then show ?thesis
    unfolding validate_missing_root check_roots_iff by simp
qed

theorem root_completeness_witness:
  "edges_between_nodes graph_M \<and>
   pytask_resolve_dependencies_validate_dag graph_M = Inl (NodeNotFoundError ''missing'' [''M'']) \<and>
   \<not> has_cycle graph_M \<and> successors graph_M ''missing'' = [''M''] \<and>
   (\<exists>pre a post. nodes graph_M = pre @ (''missing'', a) # post \<and>
        root_state graph_M (''missing'', a) = Some Raises_NodeNotFoundError \<and>
        list_all (root_passes graph_M) pre)"
proof -
  have w: "edges_between_nodes graph_M"
    by (simp add: graph_M_eq edges_between_nodes_def)
  have v: "pytask_resolve_dependencies_validate_dag graph_M =
      Inl (NodeNotFoundError ''missing'' [''M''])"
    by (simp add: graph_M_eq pytask_resolve_dependencies_validate_dag_def
        check_if_dag_has_cycles_def find_cycle_def check_if_root_nodes_are_available_def
        predecessors_def successors_def missing_def)
  from root_completeness[OF w, of "''missing''" "[''M'']"] v w
  show ?thesis by (simp add: list_all_iff)
qed

section \<open>Unchanged tasks\<close>




section \<open>Properties of the entry point\<close>

text \<open>
  Claim C7 (failure atomicity), as the spec states it: on a failure no partially annotated
  graph is exposed. The entry point stores the graph in the session before it validates
  it, and the selection marks tasks in place. The task \<open>F\<close> can be reached from \<open>A\<close>, so
  every order that follows the edges runs \<open>A\<close> first: the selection marks \<open>A\<close> and then
  fails on the product of \<open>F\<close>; the entry point raises \<^verbatim>\<open>ResolvingDependenciesError\<close>, and
  the session holds the graph with the marker on \<open>A\<close>.
\<close>

theorem partial_annotation_counterexample:
  "(''A'', ''F'') \<in> (set (edges graph_AF))\<^sup>+ \<and>
   pytask_resolve_dependencies_create_dag [task_A, task_F] = graph_AF \<and>
   markers_of graph_AF ''A'' = [] \<and>
   (case pytask_resolve_dependencies db_AF [task_A, task_F] new_session of
      (s', r) \<Rightarrow>
        r = Inl (ResolvingDependenciesError None) \<and>
        resolving_dependencies_report s' = Some (OtherException ''PermissionError'') \<and>
        (\<exists>g. session_dag s' = Some g \<and> markers_of g ''A'' = [skip_unchanged] \<and>
              markers_of g ''F'' = []))"
proof -
  have "reaches (edges graph_AF) ''A'' ''F''"
    by (simp add: graph_AF_eq reaches_def)
  then have 1: "(''A'', ''F'') \<in> (set (edges graph_AF))\<^sup>+" by (simp add: reaches_iff)
  have 2: "pytask_resolve_dependencies_create_dag [task_A, task_F] = graph_AF"
    by (simp add: graph_AF_def)
  have 3: "markers_of graph_AF ''A'' = []"
    by (simp add: graph_AF_eq markers_of_def node_attrs_def task_A_def)
  have 4: "(case pytask_resolve_dependencies db_AF [task_A, task_F] new_session of
      (s', r) \<Rightarrow>
        r = Inl (ResolvingDependenciesError None) \<and>
        resolving_dependencies_report s' = Some (OtherException ''PermissionError'') \<and>
        (\<exists>g. session_dag s' = Some g \<and> markers_of g ''A'' = [skip_unchanged] \<and>
              markers_of g ''F'' = []))"
    unfolding pytask_resolve_dependencies_def Let_def graph_AF_def[symmetric]
      validate_graph_AF select_graph_AF
    by (simp add: markers_of_def node_attrs_def task_F_def)
  from 1 2 3 4 show ?thesis by blast
qed

text \<open>
  Claim C7, amended: the resolution builds, then validates, then selects, and ends in one
  of three ways. The validation passes and the selection ends without exception: the
  result is \<open>True\<close> and the session holds the graph the selection returned. The validation
  raises: the bare \<^verbatim>\<open>ResolvingDependenciesError\<close> is raised, the report of the session holds
  the exception of the validation, and the session holds the graph exactly as it was built.
  The validation passes and the selection raises: the bare
  \<^verbatim>\<open>ResolvingDependenciesError\<close> is raised, the report holds the exception of the
  selection, and the session holds the graph as the selection left it, which is the built
  graph with \<^verbatim>\<open>skip_unchanged\<close> appended to the markers of the tasks that were marked
  before the failure.
\<close>

theorem resolution_outcome:
  "(\<exists>g. pytask_resolve_dependencies_validate_dag (pytask_resolve_dependencies_create_dag ts) = Inr () \<and>
        pytask_resolve_dependencies_select_execution_dag db
          (pytask_resolve_dependencies_create_dag ts) = (g, None) \<and>
        pytask_resolve_dependencies db ts s = (s\<lparr>session_dag := Some g\<rparr>, Inr True)) \<or>
   (\<exists>e. pytask_resolve_dependencies_validate_dag (pytask_resolve_dependencies_create_dag ts) = Inl e \<and>
        pytask_resolve_dependencies db ts s =
          (s\<lparr>session_dag := Some (pytask_resolve_dependencies_create_dag ts),
              resolving_dependencies_report := Some e\<rparr>,
           Inl (ResolvingDependenciesError None))) \<or>
   (\<exists>g e. pytask_resolve_dependencies_validate_dag (pytask_resolve_dependencies_create_dag ts) = Inr () \<and>
        pytask_resolve_dependencies_select_execution_dag db
          (pytask_resolve_dependencies_create_dag ts) = (g, Some e) \<and>
        pytask_resolve_dependencies db ts s =
          (s\<lparr>session_dag := Some g, resolving_dependencies_report := Some e\<rparr>,
           Inl (ResolvingDependenciesError None)) \<and>
        same_shape (pytask_resolve_dependencies_create_dag ts) g \<and>
        (\<forall>n. markers_of g n = markers_of (pytask_resolve_dependencies_create_dag ts) n \<or>
             markers_of g n =
               markers_of (pytask_resolve_dependencies_create_dag ts) n @ [skip_unchanged]))"
proof -
  let ?g = "pytask_resolve_dependencies_create_dag ts"
  show ?thesis
  proof (cases "pytask_resolve_dependencies_validate_dag ?g")
    case (Inl e)
    then have "pytask_resolve_dependencies db ts s =
          (s\<lparr>session_dag := Some ?g, resolving_dependencies_report := Some e\<rparr>,
           Inl (ResolvingDependenciesError None))"
      by (simp add: pytask_resolve_dependencies_def Let_def)
    with Inl show ?thesis by blast
  next
    case (Inr u)
    then have v: "pytask_resolve_dependencies_validate_dag ?g = Inr ()" by simp
    obtain g' r where sel: "pytask_resolve_dependencies_select_execution_dag db ?g = (g', r)"
      by (metis surj_pair)
    from select_same_shape[of ?g db] sel have sh: "same_shape ?g g'" by simp
    from select_markers[of db ?g] sel
    have mk: "\<forall>n. markers_of g' n = markers_of ?g n \<or>
                 markers_of g' n = markers_of ?g n @ [skip_unchanged]"
      by simp
    show ?thesis
    proof (cases r)
      case None
      with v sel have "pytask_resolve_dependencies db ts s = (s\<lparr>session_dag := Some g'\<rparr>, Inr True)"
        by (simp add: pytask_resolve_dependencies_def Let_def)
      with v sel None show ?thesis by blast
    next
      case (Some e)
      with v sel have "pytask_resolve_dependencies db ts s =
          (s\<lparr>session_dag := Some g', resolving_dependencies_report := Some e\<rparr>,
           Inl (ResolvingDependenciesError None))"
        by (simp add: pytask_resolve_dependencies_def Let_def)
      with v sel Some sh mk show ?thesis by blast
    qed
  qed
qed

text \<open>In the first example both tasks ran before; the resolution succeeds and both are
  marked. In the second the input of the task does not exist, and the validation raises.\<close>

theorem resolution_outcome_witness:
  "pytask_resolve_dependencies_validate_dag
     (pytask_resolve_dependencies_create_dag [task_A, task_B]) = Inr () \<and>
   (\<exists>g. pytask_resolve_dependencies_select_execution_dag db_AB
          (pytask_resolve_dependencies_create_dag [task_A, task_B]) = (g, None) \<and>
        markers_of g ''A'' = [skip_unchanged] \<and> markers_of g ''B'' = [skip_unchanged] \<and>
        pytask_resolve_dependencies db_AB [task_A, task_B] new_session =
          (new_session\<lparr>session_dag := Some g\<rparr>, Inr True)) \<and>
   pytask_resolve_dependencies_validate_dag
     (pytask_resolve_dependencies_create_dag [task_M]) =
       Inl (NodeNotFoundError ''missing'' [''M'']) \<and>
   pytask_resolve_dependencies db_AB [task_M] new_session =
     (new_session\<lparr>session_dag := Some (pytask_resolve_dependencies_create_dag [task_M]),
                   resolving_dependencies_report := Some (NodeNotFoundError ''missing'' [''M''])\<rparr>,
      Inl (ResolvingDependenciesError None))"
proof -
  have v: "pytask_resolve_dependencies_validate_dag
     (pytask_resolve_dependencies_create_dag [task_A, task_B]) = Inr ()"
    unfolding graph_AB_def[symmetric] by (rule validate_graph_AB)
  have m: "markers_of g ''A'' = [skip_unchanged] \<and> markers_of g ''B'' = [skip_unchanged]"
    if "pytask_resolve_dependencies_select_execution_dag db_AB
          (pytask_resolve_dependencies_create_dag [task_A, task_B]) = (g, None)" for g
    using that unfolding graph_AB_def[symmetric] select_graph_AB
    by (auto simp: markers_of_def node_attrs_def)
  have sel: "snd (pytask_resolve_dependencies_select_execution_dag db_AB
          (pytask_resolve_dependencies_create_dag [task_A, task_B])) = None"
    unfolding graph_AB_def[symmetric] select_graph_AB by simp
  from resolution_outcome[where db = db_AB and ts = "[task_A, task_B]" and s = new_session]
    v sel m
  have 1: "\<exists>g. pytask_resolve_dependencies_select_execution_dag db_AB
          (pytask_resolve_dependencies_create_dag [task_A, task_B]) = (g, None) \<and>
        markers_of g ''A'' = [skip_unchanged] \<and> markers_of g ''B'' = [skip_unchanged] \<and>
        pytask_resolve_dependencies db_AB [task_A, task_B] new_session =
          (new_session\<lparr>session_dag := Some g\<rparr>, Inr True)"
    by auto
  have vm: "pytask_resolve_dependencies_validate_dag
     (pytask_resolve_dependencies_create_dag [task_M]) =
       Inl (NodeNotFoundError ''missing'' [''M''])"
    unfolding graph_M_def[symmetric]
    by (simp add: graph_M_eq pytask_resolve_dependencies_validate_dag_def
        check_if_dag_has_cycles_def find_cycle_def check_if_root_nodes_are_available_def
        predecessors_def successors_def missing_def)
  from resolution_outcome[where db = db_AB and ts = "[task_M]" and s = new_session] vm
  have 2: "pytask_resolve_dependencies db_AB [task_M] new_session =
     (new_session\<lparr>session_dag := Some (pytask_resolve_dependencies_create_dag [task_M]),
                   resolving_dependencies_report := Some (NodeNotFoundError ''missing'' [''M''])\<rparr>,
      Inl (ResolvingDependenciesError None))"
    by auto
  from v 1 vm 2 show ?thesis by blast
qed

end
